theory Spec2Isabelle
  imports Complex_Main "HOL-Library.Multiset"
begin

section \<open>Polling interval handler (main process)\<close>

text \<open>
  The handler of \<open>setPollingInterval\<close> computes
  \<^verbatim>\<open>Math.max(250, Math.min(10000, Number(ms) || 1000))\<close>, stores the result in
  \<open>pollIntervalMs\<close> and answers \<open>{ ok: true, pollIntervalMs }\<close>.
  A JavaScript number is a finite value, \<open>NaN\<close> or one of the two infinities; the
  handler sees its argument through \<open>Number(ms)\<close>, which maps every value that is not
  numeric (\<open>undefined\<close>, a string that is no numeral, an object) to \<open>NaN\<close>. Finite
  values are taken as rationals. Writing the settings file and restarting the poll timer,
  which the handler does between storing the value and answering, are not followed.
\<close>

datatype js_number = Finite rat | NaN | PosInfinity | NegInfinity






record poll_reply =
  ok :: bool
  reply_pollIntervalMs :: js_number


section \<open>Numbers and strings of the host language\<close>

text \<open>
  Game times, lead times and spawn times are JavaScript numbers; they are taken as
  rationals, so that the slack \<open>2.1\<close> of the firing window is exact. Wall-clock
  readings of \<open>Date.now()\<close> are integers (milliseconds).
\<close>

definition digit_char :: "nat \<Rightarrow> char" where
  "digit_char d = ''0123456789'' ! d"

fun show_nat :: "nat \<Rightarrow> string" where
  "show_nat n = (if n < 10 then [digit_char n] else show_nat (n div 10) @ [digit_char (n mod 10)])"

declare show_nat.simps [simp del]

text \<open>Digits after the decimal point, at most \<open>k\<close> of them.\<close>

fun frac_digits :: "nat \<Rightarrow> rat \<Rightarrow> string" where
  "frac_digits 0 f = []"
| "frac_digits (Suc k) f =
     (if f = 0 then []
      else digit_char (nat \<lfloor>f * 10\<rfloor>) # frac_digits k (f * 10 - of_int \<lfloor>f * 10\<rfloor>))"

text \<open>
  \<open>String(x)\<close> of a number: an integer value prints as its decimal digits with a leading
  minus when negative, which is what JavaScript prints below \<open>10^21\<close>; a value with a
  fractional part prints its digits after the point (JavaScript prints the shortest
  decimal that reads back as the same double; for the short decimals of a rule file the
  two agree).
\<close>

definition String_of_number :: "rat \<Rightarrow> string" where
  "String_of_number x =
     (let a = \<bar>x\<bar>; ip = \<lfloor>a\<rfloor>; fr = a - of_int ip
      in (if x < 0 then ''-'' else []) @ show_nat (nat ip)
         @ (if fr = 0 then [] else ''.'' @ frac_digits 20 fr))"

text \<open>\<open>Math.round\<close>: the nearest integer, a half rounding up.\<close>

definition Math_round :: "rat \<Rightarrow> int" where
  "Math_round x = \<lfloor>x + 1 / 2\<rfloor>"

text \<open>\<open>s.replace(pat, rep)\<close> with a string pattern replaces the first occurrence only.\<close>

fun replace_first :: "string \<Rightarrow> string \<Rightarrow> string \<Rightarrow> string" where
  "replace_first pat rep [] = (if pat = [] then rep else [])"
| "replace_first pat rep (c # cs) =
     (if take (length pat) (c # cs) = pat then rep @ drop (length pat) (c # cs)
      else c # replace_first pat rep cs)"

text \<open>\<open>a || b\<close> on strings that may be absent: the empty string is falsy.\<close>

definition str_or :: "string option \<Rightarrow> string \<Rightarrow> string" where
  "str_or a b = (case a of None \<Rightarrow> b | Some s \<Rightarrow> if s = [] then b else s)"

section \<open>Tips engine: rules\<close>

record TipChannelOverlay =
  chan_type :: string
  chan_severity :: "string option"
  chan_icon :: "string option"
  chan_title :: "string option"
  chan_body :: "string option"
  chan_stickyMs :: "rat option"

record TipNotify =
  channels :: "TipChannelOverlay list"
  throttleSec :: "rat option"

record PhaseCondition =
  maxGameTimeSec :: "rat option"
  minGameTimeSec :: "rat option"

record RuleWhen =
  phase :: "PhaseCondition option"
  modes :: "string list option"

datatype objective = Dragon | Herald | Baron

fun objective_name :: "objective \<Rightarrow> string" where
  "objective_name Dragon = ''dragon''"
| "objective_name Herald = ''herald''"
| "objective_name Baron = ''baron''"

text \<open>\<open>leadSeconds: number | number[]\<close>.\<close>

datatype lead_seconds = OneLead rat | Leads "rat list"

text \<open>
  The trigger is a tagged union; a document may carry a type the engine does not know
  (\<open>OtherTrigger\<close>: neither branch of the tick runs).
\<close>

datatype trigger =
    CannonWave lead_seconds
  | ObjectiveSpawn objective lead_seconds
  | OtherTrigger string

text \<open>
  Rule documents are cast to the rule type without validation, so a rule may lack its
  \<open>trigger\<close> (\<open>None\<close>): reading \<open>rule.trigger.type\<close> then throws a \<open>TypeError\<close>.
  \<open>notify\<close> is read through \<open>rule.notify?.\<close> and may be absent too.
\<close>

record Rule =
  rule_id :: string
  rule_when :: "RuleWhen option"
  rule_trigger :: "trigger option"
  rule_notify :: "TipNotify option"
  rule_enabled :: "bool option"

record Module =
  mod_id :: string
  mod_rules :: "Rule list"
  mod_enabled :: "bool option"

record TipsConfigV1 =
  modules :: "Module list"

datatype tip_metadata =
    WaveMeta rat int int
  | ObjectiveMeta rat objective rat

record TipPayload =
  tip_id :: string
  tip_title :: string
  tip_body :: string
  tip_icon :: string
  tip_severity :: string
  tip_stickyMs :: rat
  tip_metadata :: tip_metadata

text \<open>What the engine reads of a snapshot; an absent level of the object is \<open>None\<close>.\<close>

record SnapshotLike =
  snap_time :: "rat option"
  snap_mode :: "string option"
  snap_dragon_next :: "rat option"
  snap_herald_next :: "rat option"
  snap_baron_next :: "rat option"

definition inPhase :: "RuleWhen option \<Rightarrow> rat \<Rightarrow> bool" where
  "inPhase w gameTime =
     (case w of None \<Rightarrow> True
      | Some wh \<Rightarrow>
         (case phase wh of None \<Rightarrow> True
          | Some ph \<Rightarrow>
             (case minGameTimeSec ph of
                Some mn \<Rightarrow>
                  if gameTime < mn then False
                  else (case maxGameTimeSec ph of
                          Some mx \<Rightarrow> if gameTime > mx then False else True
                        | None \<Rightarrow> True)
              | None \<Rightarrow>
                  (case maxGameTimeSec ph of
                     Some mx \<Rightarrow> if gameTime > mx then False else True
                   | None \<Rightarrow> True))))"

definition modeAllowed :: "RuleWhen option \<Rightarrow> string \<Rightarrow> bool" where
  "modeAllowed w mode =
     (case w of None \<Rightarrow> True
      | Some wh \<Rightarrow>
         (case modes wh of None \<Rightarrow> True
          | Some ms \<Rightarrow>
             if length ms = 0 then True
             else if mode = [] then False
             else mode \<in> set ms))"

definition getLeadList :: "lead_seconds \<Rightarrow> rat list" where
  "getLeadList lead = (case lead of Leads ls \<Rightarrow> sort ls | OneLead l \<Rightarrow> [l])"

record wave =
  waveIndex :: int
  spawnTime :: int

text \<open>
  The loop of \<open>getNextCannonWavesBefore20\<close>: from wave \<open>i\<close> on, every third wave is a
  cannon wave; it stops after the wave of 20:00 or with five waves collected. (\<open>i\<close> is at
  least 1, where JavaScript's \<open>%\<close> and \<open>mod\<close> agree.)
\<close>

function waves_loop :: "int \<Rightarrow> wave list \<Rightarrow> wave list" where
  "waves_loop i waves =
     (if 90 + (i - 1) * 30 > 1200 then waves
      else if i mod 3 = 0 then
        (if length (waves @ [\<lparr>waveIndex = i, spawnTime = 90 + (i - 1) * 30\<rparr>]) \<ge> 5
         then waves @ [\<lparr>waveIndex = i, spawnTime = 90 + (i - 1) * 30\<rparr>]
         else waves_loop (i + 1) (waves @ [\<lparr>waveIndex = i, spawnTime = 90 + (i - 1) * 30\<rparr>]))
      else waves_loop (i + 1) waves)"
  by pat_completeness auto
termination
  by (relation "measure (\<lambda>(i, waves). nat (39 - i))") auto

declare waves_loop.simps [simp del]

definition getNextCannonWavesBefore20 :: "rat \<Rightarrow> wave list" where
  "getNextCannonWavesBefore20 nowSec =
     (let currentWaveIndex = (if nowSec < 90 then 0 else \<lfloor>(nowSec - 90) / 30\<rfloor> + 1)
      in waves_loop (currentWaveIndex + 1) [])"

section \<open>Tips engine: state and tick\<close>

text \<open>
  The mutable fields of the engine. \<open>FiredKey\<close> is a string built from the rule id, the
  lead and the occurrence.
\<close>

type_synonym FiredKey = string

record TipsEngine =
  lastNow :: rat
  fired :: "FiredKey set"
  lastFiredAtMs :: "FiredKey \<rightharpoonup> int"
  config :: TipsConfigV1

definition new_engine :: "TipsConfigV1 \<Rightarrow> TipsEngine" where
  "new_engine cfg = \<lparr>lastNow = 0, fired = {}, lastFiredAtMs = Map.empty, config = cfg\<rparr>"

definition reload :: "TipsConfigV1 \<Rightarrow> TipsEngine \<Rightarrow> TipsEngine" where
  "reload cfg s = s\<lparr>config := cfg\<rparr>"

definition cannon_key :: "string \<Rightarrow> rat \<Rightarrow> int \<Rightarrow> FiredKey" where
  "cannon_key rid lead wi =
     rid @ '':'' @ String_of_number lead @ '':'' @ String_of_number (of_int wi)"

definition objective_key :: "string \<Rightarrow> objective \<Rightarrow> rat \<Rightarrow> rat \<Rightarrow> FiredKey" where
  "objective_key rid obj lead next =
     rid @ '':'' @ objective_name obj @ '':'' @ String_of_number lead @ '':''
       @ String_of_number (of_int (Math_round next))"

text \<open>\<open>Math.max(0, Math.floor((rule.notify?.throttleSec || 0) * 1000))\<close>.\<close>

definition throttleMs :: "Rule \<Rightarrow> int" where
  "throttleMs rule =
     max 0 \<lfloor>(case rule_notify rule of None \<Rightarrow> 0
              | Some n \<Rightarrow> (case throttleSec n of None \<Rightarrow> 0 | Some t \<Rightarrow> t)) * 1000\<rfloor>"

text \<open>\<open>(rule.notify?.channels || []).find((c) => c.type === "overlay")\<close>.\<close>

definition overlay_channel :: "Rule \<Rightarrow> TipChannelOverlay option" where
  "overlay_channel rule =
     find (\<lambda>c. chan_type c = ''overlay'')
       (case rule_notify rule of None \<Rightarrow> [] | Some n \<Rightarrow> channels n)"

definition chan_str :: "TipChannelOverlay option \<Rightarrow> (TipChannelOverlay \<Rightarrow> string option) \<Rightarrow> string option" where
  "chan_str chan field = (case chan of None \<Rightarrow> None | Some c \<Rightarrow> field c)"

definition cannon_payload :: "Rule \<Rightarrow> rat \<Rightarrow> wave \<Rightarrow> TipPayload" where
  "cannon_payload rule lead w =
     (let chan = overlay_channel rule;
          titleTpl = str_or (chan_str chan chan_title) ''Cannon wave in {lead}s'';
          bodyTpl = str_or (chan_str chan chan_body) ''Prepare to secure the cannon minion.''
      in \<lparr>tip_id = rule_id rule,
          tip_title = replace_first ''{lead}'' (String_of_number lead) titleTpl,
          tip_body = replace_first ''{lead}'' (String_of_number lead) bodyTpl,
          tip_icon = str_or (chan_str chan chan_icon)
                       [CHR 0xF0, CHR 0x9F, CHR 0x9B, CHR 0xA1, CHR 0xEF, CHR 0xB8, CHR 0x8F],
          tip_severity = str_or (chan_str chan chan_severity) ''info'',
          tip_stickyMs = (case chan of None \<Rightarrow> 4000
                          | Some c \<Rightarrow> (case chan_stickyMs c of None \<Rightarrow> 4000 | Some v \<Rightarrow> v)),
          tip_metadata = WaveMeta lead (waveIndex w) (spawnTime w)\<rparr>)"

definition objective_payload :: "Rule \<Rightarrow> objective \<Rightarrow> rat \<Rightarrow> rat \<Rightarrow> TipPayload" where
  "objective_payload rule obj lead next =
     (let chan = overlay_channel rule;
          titleTpl = str_or (chan_str chan chan_title)
                       (''Prepare '' @ objective_name obj @ '' in {lead}s'');
          bodyTpl = str_or (chan_str chan chan_body)
                      (''Group and secure vision for '' @ objective_name obj @ ''.'')
      in \<lparr>tip_id = rule_id rule,
          tip_title = replace_first ''{lead}'' (String_of_number lead) titleTpl,
          tip_body = replace_first ''{lead}'' (String_of_number lead) bodyTpl,
          tip_icon = str_or (chan_str chan chan_icon) [CHR 0xE2, CHR 0x9A, CHR 0x91],
          tip_severity = str_or (chan_str chan chan_severity) ''warning'',
          tip_stickyMs = (case chan of None \<Rightarrow> 5000
                          | Some c \<Rightarrow> (case chan_stickyMs c of None \<Rightarrow> 5000 | Some v \<Rightarrow> v)),
          tip_metadata = ObjectiveMeta lead obj next\<rparr>)"

datatype error = TypeError

text \<open>
  The result of a piece of the tick: the error thrown (if any), the engine state reached
  and the tips emitted, in order. A throw keeps what was mutated and emitted before it.
\<close>

type_synonym outcome = "error option \<times> TipsEngine \<times> TipPayload list"

text \<open>A \<open>for ... of\<close> loop whose body may mutate the engine, emit tips and throw.\<close>

fun for_each :: "('a \<Rightarrow> TipsEngine \<Rightarrow> outcome) \<Rightarrow> 'a list \<Rightarrow> TipsEngine \<Rightarrow> outcome" where
  "for_each body [] s = (None, s, [])"
| "for_each body (x # xs) s =
     (case body x s of
        (Some e, s1, out1) \<Rightarrow> (Some e, s1, out1)
      | (None, s1, out1) \<Rightarrow>
          (case for_each body xs s1 of (e, s2, out2) \<Rightarrow> (e, s2, out1 @ out2)))"

text \<open>
  The block guarded by \<open>withinWindow && !this.fired.has(key)\<close>, the same in both
  branches of the tick: the throttle check (which leaves the block with \<open>continue\<close>), the
  recording of the key and the emission. \<open>Date.now()\<close> is read as one value \<open>nowMs\<close> for
  the whole tick.
\<close>

definition fire :: "Rule \<Rightarrow> int \<Rightarrow> FiredKey \<Rightarrow> TipPayload \<Rightarrow> TipsEngine \<Rightarrow> outcome" where
  "fire rule nowMs key payload s =
     (if throttleMs rule > 0 then
        (if nowMs - (case lastFiredAtMs s key of None \<Rightarrow> 0 | Some prev \<Rightarrow> prev) < throttleMs rule
         then (None, s, [])
         else (None,
               s\<lparr>lastFiredAtMs := (lastFiredAtMs s)(key \<mapsto> nowMs),
                  fired := insert key (fired s)\<rparr>,
               [payload]))
      else (None, s\<lparr>fired := insert key (fired s)\<rparr>, [payload]))"

text \<open>\<open>timeToSpawn <= lead && timeToSpawn > lead - 2.1\<close>.\<close>

definition withinWindow :: "rat \<Rightarrow> rat \<Rightarrow> bool" where
  "withinWindow timeToSpawn lead = (timeToSpawn \<le> lead \<and> timeToSpawn > lead - 21 / 10)"

definition cannon_lead :: "Rule \<Rightarrow> rat \<Rightarrow> int \<Rightarrow> wave \<Rightarrow> rat \<Rightarrow> TipsEngine \<Rightarrow> outcome" where
  "cannon_lead rule nowSec nowMs w lead s =
     (let timeToSpawn = of_int (spawnTime w) - nowSec;
          key = cannon_key (rule_id rule) lead (waveIndex w)
      in if withinWindow timeToSpawn lead \<and> key \<notin> fired s
         then fire rule nowMs key (cannon_payload rule lead w) s
         else (None, s, []))"

definition objective_lead :: "Rule \<Rightarrow> objective \<Rightarrow> rat \<Rightarrow> int \<Rightarrow> rat \<Rightarrow> rat \<Rightarrow> TipsEngine \<Rightarrow> outcome" where
  "objective_lead rule obj nowSec nowMs next lead s =
     (let timeToSpawn = next - nowSec;
          key = objective_key (rule_id rule) obj lead next
      in if withinWindow timeToSpawn lead \<and> key \<notin> fired s
         then fire rule nowMs key (objective_payload rule obj lead next) s
         else (None, s, []))"

text \<open>\<open>safeNext(safeObj(snap, key))\<close>.\<close>

fun safeNext :: "SnapshotLike \<Rightarrow> objective \<Rightarrow> rat option" where
  "safeNext snap Dragon = snap_dragon_next snap"
| "safeNext snap Herald = snap_herald_next snap"
| "safeNext snap Baron = snap_baron_next snap"

text \<open>The two branches on \<open>rule.trigger.type\<close>.\<close>

fun run_trigger :: "SnapshotLike \<Rightarrow> rat \<Rightarrow> int \<Rightarrow> Rule \<Rightarrow> trigger \<Rightarrow> TipsEngine \<Rightarrow> outcome" where
  "run_trigger snap nowSec nowMs rule (CannonWave leadSeconds) s =
     (if nowSec \<ge> 1200 then (None, s, [])
      else for_each (\<lambda>w. for_each (cannon_lead rule nowSec nowMs w) (getLeadList leadSeconds))
             (getNextCannonWavesBefore20 nowSec) s)"
| "run_trigger snap nowSec nowMs rule (ObjectiveSpawn obj leadSeconds) s =
     (case safeNext snap obj of
        None \<Rightarrow> (None, s, [])
      | Some next \<Rightarrow>
          if next \<le> 0 then (None, s, [])
          else if next - nowSec \<le> 0 then (None, s, [])
          else for_each (objective_lead rule obj nowSec nowMs next) (getLeadList leadSeconds) s)"
| "run_trigger snap nowSec nowMs rule (OtherTrigger t) s = (None, s, [])"

definition eval_rule :: "SnapshotLike \<Rightarrow> rat \<Rightarrow> string \<Rightarrow> int \<Rightarrow> Rule \<Rightarrow> TipsEngine \<Rightarrow> outcome" where
  "eval_rule snap nowSec mode nowMs rule s =
     (if rule_enabled rule = Some False then (None, s, [])
      else if \<not> inPhase (rule_when rule) nowSec then (None, s, [])
      else if \<not> modeAllowed (rule_when rule) mode then (None, s, [])
      else (case rule_trigger rule of
              None \<Rightarrow> (Some TypeError, s, [])
            | Some trg \<Rightarrow> run_trigger snap nowSec nowMs rule trg s))"

definition eval_module :: "SnapshotLike \<Rightarrow> rat \<Rightarrow> string \<Rightarrow> int \<Rightarrow> Module \<Rightarrow> TipsEngine \<Rightarrow> outcome" where
  "eval_module snap nowSec mode nowMs m s =
     (if mod_enabled m = Some False then (None, s, [])
      else for_each (eval_rule snap nowSec mode nowMs) (mod_rules m) s)"

text \<open>\<open>snap.game?.time ?? 0\<close> and \<open>snap.game?.mode ?? ""\<close>.\<close>

definition snap_now :: "SnapshotLike \<Rightarrow> rat" where
  "snap_now snap = (case snap_time snap of None \<Rightarrow> 0 | Some t \<Rightarrow> t)"

definition snap_mode_str :: "SnapshotLike \<Rightarrow> string" where
  "snap_mode_str snap = (case snap_mode snap of None \<Rightarrow> [] | Some m \<Rightarrow> m)"

text \<open>\<open>if (nowSec < this.lastNow) this.fired.clear(); this.lastNow = nowSec\<close>.\<close>

definition observe_clock :: "TipsEngine \<Rightarrow> rat \<Rightarrow> TipsEngine" where
  "observe_clock s nowSec = (if nowSec < lastNow s then s\<lparr>fired := {}\<rparr> else s)\<lparr>lastNow := nowSec\<rparr>"

text \<open>The part of the tick inside \<open>try\<close>, after the snapshot has arrived.\<close>

definition tick_body :: "TipsEngine \<Rightarrow> SnapshotLike \<Rightarrow> int \<Rightarrow> outcome" where
  "tick_body s snap nowMs =
     (let nowSec = snap_now snap;
          mode = snap_mode_str snap;
          s1 = observe_clock s nowSec
      in for_each (eval_module snap nowSec mode nowMs) (modules (config s1)) s1)"

text \<open>
  One tick. The snapshot is \<open>None\<close> when \<open>getSnapshot\<close> rejects (no game is running):
  the \<open>catch\<close> then leaves the engine as it was. An error thrown later is swallowed by the
  same \<open>catch\<close>; the state and the tips emitted up to it stay.
\<close>

definition tick :: "TipsEngine \<Rightarrow> SnapshotLike option \<Rightarrow> int \<Rightarrow> TipsEngine \<times> TipPayload list" where
  "tick s snapshot nowMs =
     (case snapshot of
        None \<Rightarrow> (s, [])
      | Some snap \<Rightarrow> (case tick_body s snap nowMs of (e, s', out) \<Rightarrow> (s', out)))"

text \<open>
  What happens to an engine over time: ticks (each with the snapshot it obtained and the
  wall-clock reading) and reloads of the rule set.
\<close>

datatype event = Tick "SnapshotLike option" int | Reload TipsConfigV1

fun run :: "TipsEngine \<Rightarrow> event list \<Rightarrow> TipsEngine \<times> TipPayload list" where
  "run s [] = (s, [])"
| "run s (Tick snapshot nowMs # evs) =
     (case tick s snapshot nowMs of
        (s1, out1) \<Rightarrow> (case run s1 evs of (s2, out2) \<Rightarrow> (s2, out1 @ out2)))"
| "run s (Reload cfg # evs) = run (reload cfg s) evs"

text \<open>The game clocks observed by the ticks of a sequence, in order.\<close>

fun clocks :: "event list \<Rightarrow> rat list" where
  "clocks [] = []"
| "clocks (Tick (Some snap) nowMs # evs) = snap_now snap # clocks evs"
| "clocks (Tick None nowMs # evs) = clocks evs"
| "clocks (Reload cfg # evs) = clocks evs"

text \<open>
  The fired key of a tip, from what the payload carries: the rule id and, in the
  metadata, the lead and the occurrence.
\<close>

definition tip_key :: "TipPayload \<Rightarrow> FiredKey" where
  "tip_key p =
     (case tip_metadata p of
        WaveMeta lead wi st \<Rightarrow> cannon_key (tip_id p) lead wi
      | ObjectiveMeta lead obj next \<Rightarrow> objective_key (tip_id p) obj lead next)"

section \<open>Snapshot aggregator\<close>

subsection \<open>Objective timer model\<close>

text \<open>An entry of the event log, with the fields the aggregator reads.\<close>

record GameEvent =
  EventName :: string
  EventTime :: rat
  DragonType :: "string option"
  KillerName :: "string option"

text \<open>\<open>str.padStart(2, "0")\<close>.\<close>

definition padStart2 :: "string \<Rightarrow> string" where
  "padStart2 str = replicate (2 - length str) CHR ''0'' @ str"

definition secondsToClock :: "rat \<Rightarrow> string" where
  "secondsToClock s =
     (let sign = (if s < 0 then ''-'' else []);
          abs = nat \<bar>\<lfloor>s\<rfloor>\<bar>;
          m = show_nat (abs div 60);
          sec = padStart2 (show_nat (abs mod 60))
      in sign @ m @ '':'' @ sec)"

text \<open>
  The scan of the event log: the last kill event of each objective wins. The accumulator
  is \<open>(lastDragonKill, lastHeraldKill, lastBaronKill)\<close>.
\<close>

fun scan_kills ::
  "GameEvent list \<Rightarrow> GameEvent option \<times> GameEvent option \<times> GameEvent option
     \<Rightarrow> GameEvent option \<times> GameEvent option \<times> GameEvent option" where
  "scan_kills [] acc = acc"
| "scan_kills (ev # evs) (d, h, b) =
     scan_kills evs
       (if EventName ev = ''DragonKill'' then Some ev else d,
        if EventName ev = ''HeraldKill'' then Some ev else h,
        if EventName ev = ''BaronKill'' then Some ev else b)"

record DragonTimer =
  d_nextSpawnTime :: rat
  d_timeToSpawn :: string
  d_lastKillType :: "string option"

record HeraldTimer =
  h_nextSpawnTime :: rat
  h_timeToSpawn :: string
  h_despawnsAt :: rat
  h_despawnsIn :: string

record BaronTimer =
  b_nextSpawnTime :: rat
  b_timeToSpawn :: string

record ObjectiveTimers =
  dragon :: DragonTimer
  herald :: HeraldTimer
  baron :: BaronTimer

definition DRAGON_FIRST_SPAWN :: rat where "DRAGON_FIRST_SPAWN = 300"
definition DRAGON_RESPAWN :: rat where "DRAGON_RESPAWN = 300"
definition HERALD_FIRST_SPAWN :: rat where "HERALD_FIRST_SPAWN = 480"
definition HERALD_RESPAWN :: rat where "HERALD_RESPAWN = 360"
definition BARON_FIRST_SPAWN :: rat where "BARON_FIRST_SPAWN = 1200"
definition BARON_RESPAWN :: rat where "BARON_RESPAWN = 360"

definition nextDragonAt :: "rat \<Rightarrow> GameEvent option \<Rightarrow> rat" where
  "nextDragonAt gameTimeSec lastDragonKill =
     (if gameTimeSec < DRAGON_FIRST_SPAWN then DRAGON_FIRST_SPAWN
      else (case lastDragonKill of
              Some ev \<Rightarrow> EventTime ev + DRAGON_RESPAWN
            | None \<Rightarrow> DRAGON_FIRST_SPAWN))"

definition nextHeraldAt :: "rat \<Rightarrow> GameEvent option \<Rightarrow> rat" where
  "nextHeraldAt gameTimeSec lastHeraldKill =
     (if gameTimeSec < HERALD_FIRST_SPAWN then HERALD_FIRST_SPAWN
      else min BARON_FIRST_SPAWN
             (case lastHeraldKill of
                Some ev \<Rightarrow> EventTime ev + HERALD_RESPAWN
              | None \<Rightarrow> HERALD_FIRST_SPAWN))"

definition nextBaronAt :: "rat \<Rightarrow> GameEvent option \<Rightarrow> rat" where
  "nextBaronAt gameTimeSec lastBaronKill =
     (if gameTimeSec < BARON_FIRST_SPAWN then BARON_FIRST_SPAWN
      else (case lastBaronKill of
              Some ev \<Rightarrow> EventTime ev + BARON_RESPAWN
            | None \<Rightarrow> BARON_FIRST_SPAWN))"

definition computeObjectiveTimers :: "rat \<Rightarrow> GameEvent list \<Rightarrow> ObjectiveTimers" where
  "computeObjectiveTimers gameTimeSec events =
     (case scan_kills events (None, None, None) of
        (lastDragonKill, lastHeraldKill, lastBaronKill) \<Rightarrow>
          \<lparr>dragon =
             \<lparr>d_nextSpawnTime = nextDragonAt gameTimeSec lastDragonKill,
              d_timeToSpawn = secondsToClock (nextDragonAt gameTimeSec lastDragonKill - gameTimeSec),
              d_lastKillType =
                (case lastDragonKill of
                   None \<Rightarrow> None
                 | Some ev \<Rightarrow>
                     (case DragonType ev of
                        None \<Rightarrow> None
                      | Some t \<Rightarrow> if t = [] then None else Some t))\<rparr>,
           herald =
             \<lparr>h_nextSpawnTime = nextHeraldAt gameTimeSec lastHeraldKill,
              h_timeToSpawn = secondsToClock (nextHeraldAt gameTimeSec lastHeraldKill - gameTimeSec),
              h_despawnsAt = BARON_FIRST_SPAWN,
              h_despawnsIn = secondsToClock (BARON_FIRST_SPAWN - gameTimeSec)\<rparr>,
           baron =
             \<lparr>b_nextSpawnTime = nextBaronAt gameTimeSec lastBaronKill,
              b_timeToSpawn = secondsToClock (nextBaronAt gameTimeSec lastBaronKill - gameTimeSec)\<rparr>\<rparr>)"

subsection \<open>Identity resolution\<close>

text \<open>
  The answer of \<open>/activeplayername\<close>: a string, or an object with optional \<open>riotId\<close>,
  \<open>riotIdGameName\<close> and \<open>riotIdTagLine\<close> (in this order).
\<close>

datatype active_name =
    ActiveString string
  | ActiveObject "string option" "string option" "string option"

record PlayerListEntry =
  riotId :: "string option"
  riotIdGameName :: "string option"
  riotIdTagLine :: "string option"
  summonerName :: "string option"
  championName :: "string option"
  team :: "string option"
  level :: "int option"

text \<open>
  \<open>trim\<close> and \<open>toLowerCase\<close> on the ASCII part of a string (white space is the
  characters 9 to 13 and the blank).
\<close>

definition is_space :: "char \<Rightarrow> bool" where
  "is_space c = (c \<in> set [CHR 0x09, CHR 0x0A, CHR 0x0B, CHR 0x0C, CHR 0x0D, CHR '' ''])"

definition trim :: "string \<Rightarrow> string" where
  "trim s = rev (dropWhile is_space (rev (dropWhile is_space s)))"

definition lower_char :: "char \<Rightarrow> char" where
  "lower_char c =
     (if 65 \<le> (of_char c :: nat) \<and> (of_char c :: nat) \<le> 90
      then char_of ((of_char c :: nat) + 32) else c)"

definition toLowerCase :: "string \<Rightarrow> string" where
  "toLowerCase s = map lower_char s"

definition opt_str :: "string option \<Rightarrow> string" where
  "opt_str a = (case a of None \<Rightarrow> [] | Some s \<Rightarrow> s)"

definition normalizeIdString :: "string option \<Rightarrow> string" where
  "normalizeIdString s = toLowerCase (trim (opt_str s))"

text \<open>\<open>s.includes("#")\<close>, \<open>s.split("#")[0]\<close> and \<open>s.split("#")[1]\<close> (for \<open>s\<close> with a \<open>#\<close>).\<close>

definition has_hash :: "string \<Rightarrow> bool" where
  "has_hash s = (CHR ''#'' \<in> set s)"

definition split_hash_0 :: "string \<Rightarrow> string" where
  "split_hash_0 s = takeWhile (\<lambda>c. c \<noteq> CHR ''#'') s"

definition split_hash_1 :: "string \<Rightarrow> string" where
  "split_hash_1 s = takeWhile (\<lambda>c. c \<noteq> CHR ''#'') (tl (dropWhile (\<lambda>c. c \<noteq> CHR ''#'') s))"

definition buildFullRiotId :: "PlayerListEntry option \<Rightarrow> string" where
  "buildFullRiotId p =
     (case p of
        None \<Rightarrow> []
      | Some q \<Rightarrow>
          if (case riotId q of None \<Rightarrow> False | Some r \<Rightarrow> has_hash r) then opt_str (riotId q)
          else if opt_str (riotIdGameName q) \<noteq> [] \<and> opt_str (riotIdTagLine q) \<noteq> []
          then opt_str (riotIdGameName q) @ ''#'' @ opt_str (riotIdTagLine q)
          else opt_str (summonerName q))"

text \<open>The normalised forms of the active identity.\<close>

record active_identity =
  apString :: string
  apRiotIdFromString :: string
  apGameName :: string
  apTagLine :: string
  apFullRiotId :: string

definition normalize_active :: "active_name \<Rightarrow> active_identity" where
  "normalize_active a =
     (let apStr = (case a of ActiveString s \<Rightarrow> s | ActiveObject r g t \<Rightarrow> []);
          fromString = (if has_hash apStr then apStr else []);
          gameNameFromString = (if fromString \<noteq> [] then split_hash_0 fromString else apStr);
          tagFromString = (if fromString \<noteq> [] then split_hash_1 fromString else []);
          gameName = (case a of
                        ActiveString s \<Rightarrow> gameNameFromString
                      | ActiveObject r g t \<Rightarrow> str_or g gameNameFromString);
          tagLine = (case a of
                       ActiveString s \<Rightarrow> tagFromString
                     | ActiveObject r g t \<Rightarrow> str_or t tagFromString);
          composed = (if gameName \<noteq> [] \<and> tagLine \<noteq> [] then gameName @ ''#'' @ tagLine else []);
          full = (case a of
                    ActiveString s \<Rightarrow> composed
                  | ActiveObject r g t \<Rightarrow> str_or r composed)
      in \<lparr>apString = apStr, apRiotIdFromString = fromString, apGameName = gameName,
          apTagLine = tagLine, apFullRiotId = full\<rparr>)"

text \<open>
  The roster loop that selects \<open>me\<close>. A full riot-id match assigns and leaves the loop;
  each weaker test assigns only while \<open>me\<close> is still unset.
\<close>

fun find_me :: "active_identity \<Rightarrow> PlayerListEntry list \<Rightarrow> PlayerListEntry option \<Rightarrow> PlayerListEntry option" where
  "find_me ap [] me = me"
| "find_me ap (p # ps) me =
     (if apFullRiotId ap \<noteq> []
         \<and> normalizeIdString (Some (buildFullRiotId (Some p))) = normalizeIdString (Some (apFullRiotId ap))
      then Some p
      else
        (let me1 = (if me = None \<and> apGameName ap \<noteq> [] \<and> apTagLine ap \<noteq> []
                       \<and> normalizeIdString (riotIdGameName p) = normalizeIdString (Some (apGameName ap))
                       \<and> normalizeIdString (riotIdTagLine p) = normalizeIdString (Some (apTagLine ap))
                    then Some p else me);
             me2 = (if me1 = None \<and> apGameName ap \<noteq> []
                       \<and> normalizeIdString (riotIdGameName p) = normalizeIdString (Some (apGameName ap))
                    then Some p else me1);
             me3 = (if me2 = None \<and> apString ap \<noteq> [] \<and> apRiotIdFromString ap = []
                       \<and> normalizeIdString (summonerName p) = normalizeIdString (Some (apString ap))
                    then Some p else me2)
         in find_me ap ps me3))"

definition resolve_me :: "active_name \<Rightarrow> PlayerListEntry list \<Rightarrow> PlayerListEntry option" where
  "resolve_me a players =
     (case find_me (normalize_active a) players None of
        Some p \<Rightarrow> Some p
      | None \<Rightarrow> (case players of [] \<Rightarrow> None | p # ps \<Rightarrow> Some p))"

text \<open>\<open>Array.from(new Set(xs))\<close>: duplicates removed, the first occurrence kept.\<close>

fun dedupe :: "'a list \<Rightarrow> 'a list \<Rightarrow> 'a list" where
  "dedupe seen [] = []"
| "dedupe seen (x # xs) = (if x \<in> set seen then dedupe seen xs else x # dedupe (seen @ [x]) xs)"

definition riotIdCandidates :: "active_name \<Rightarrow> PlayerListEntry option \<Rightarrow> string list" where
  "riotIdCandidates a me =
     (let ap = normalize_active a;
          gn = (case me of None \<Rightarrow> [] | Some p \<Rightarrow> opt_str (riotIdGameName p));
          tl = (case me of None \<Rightarrow> [] | Some p \<Rightarrow> opt_str (riotIdTagLine p));
          sn = (case me of None \<Rightarrow> [] | Some p \<Rightarrow> opt_str (summonerName p))
      in dedupe []
           (map trim
              (filter (\<lambda>s. s \<noteq> [])
                 [apFullRiotId ap,
                  buildFullRiotId me,
                  if gn \<noteq> [] \<and> tl \<noteq> [] then gn @ ''#'' @ tl else [],
                  gn, sn, apString ap])))"

text \<open>
  \<open>fetchWithRiotIdFallback\<close>: the candidates are tried in order against an endpoint
  (\<open>None\<close>: the request fails); the first success is returned with the candidate used.
\<close>

fun fetchWithRiotIdFallback :: "(string \<Rightarrow> 'a option) \<Rightarrow> string list \<Rightarrow> 'a option \<times> string option" where
  "fetchWithRiotIdFallback endpoint [] = (None, None)"
| "fetchWithRiotIdFallback endpoint (c # cs) =
     (case endpoint c of
        Some d \<Rightarrow> (Some d, Some c)
      | None \<Rightarrow> fetchWithRiotIdFallback endpoint cs)"

subsection \<open>Equipment slots\<close>

text \<open>
  The slot of an entry of \<open>/playeritems\<close> as the aggregator sees it. \<open>NumberSlot n\<close> is
  a finite number. \<open>OtherSlot k\<close> is any other value; \<open>k\<close> is the number that
  \<open>slot || 0\<close> becomes in the subtraction of the sort comparator, and \<open>None\<close> when it
  becomes \<open>NaN\<close>: a missing or \<open>null\<close> slot is \<open>OtherSlot (Some 0)\<close>, the string
  \<open>"3"\<close> is \<open>OtherSlot (Some 3)\<close>, the string \<open>"abc"\<close> is \<open>OtherSlot None\<close>. The numbers
  \<open>NaN\<close> and the two infinities fail the range test as a non-number does; \<open>NaN\<close> sorts as
  \<open>OtherSlot (Some 0)\<close>, and an infinity is taken as \<open>OtherSlot None\<close>.
\<close>

datatype slot_value = NumberSlot rat | OtherSlot "rat option"

text \<open>
  An entry of \<open>/playeritems\<close>; a missing display name is \<open>None\<close>, and the aggregator
  tests the truthiness of \<open>item.displayName\<close>.
\<close>

record PlayerItem =
  item_displayName :: "string option"
  item_slot :: slot_value

text \<open>
  What a successful request for the items may hold: the array itself, an object with
  the array under \<open>data\<close>, or anything else.
\<close>

datatype items_json = ItemsArray "PlayerItem list" | ItemsData "PlayerItem list" | ItemsOther

definition fetch_items :: "(string \<Rightarrow> items_json option) \<Rightarrow> string list \<Rightarrow> PlayerItem list" where
  "fetch_items endpoint candidates =
     (case fst (fetchWithRiotIdFallback endpoint candidates) of
        Some (ItemsArray xs) \<Rightarrow> xs
      | Some (ItemsData xs) \<Rightarrow> xs
      | _ \<Rightarrow> [])"

text \<open>
  The body of the loop over the sorted items. An assignment \<open>itemsBySlot[slot] = ...\<close>
  with a slot that is no whole number adds a property and leaves the 7 positions as they
  are.
\<close>

definition place_item :: "string option list \<Rightarrow> PlayerItem \<Rightarrow> string option list" where
  "place_item itemsBySlot item =
     (let slot = (case item_slot item of NumberSlot n \<Rightarrow> n | OtherSlot k \<Rightarrow> - 1)
      in if slot \<ge> 0 \<and> slot \<le> 6 \<and> opt_str (item_displayName item) \<noteq> []
         then (if of_int \<lfloor>slot\<rfloor> = slot
               then itemsBySlot[nat \<lfloor>slot\<rfloor> := item_displayName item]
               else itemsBySlot)
         else itemsBySlot)"

text \<open>
  The operand \<open>a.slot || 0\<close> of the comparator \<open>(a.slot || 0) - (b.slot || 0)\<close>, as a
  number; \<open>None\<close> is \<open>NaN\<close>.
\<close>

definition cmp_key :: "PlayerItem \<Rightarrow> rat option" where
  "cmp_key item = (case item_slot item of NumberSlot n \<Rightarrow> Some n | OtherSlot k \<Rightarrow> k)"

definition cmp_num :: "PlayerItem \<Rightarrow> rat" where
  "cmp_num item = (case cmp_key item of Some k \<Rightarrow> k | None \<Rightarrow> 0)"

text \<open>No comparison of two entries of the array yields \<open>NaN\<close>.\<close>

definition comparable :: "PlayerItem list \<Rightarrow> bool" where
  "comparable xs = list_all (\<lambda>it. cmp_key it \<noteq> None) xs"

text \<open>
  \<open>[...myItems].sort(comparator)\<close>. With a comparator that never yields \<open>NaN\<close> the
  result is the stable sort by the key. Otherwise the comparator is not consistent and
  the order of the result is left to the JavaScript engine: \<open>order\<close> stands for what
  the engine returns, some rearrangement of the array (an \<open>order\<close> that is none leaves
  the array as it is).
\<close>

definition array_sort :: "(PlayerItem list \<Rightarrow> PlayerItem list) \<Rightarrow> PlayerItem list \<Rightarrow> PlayerItem list" where
  "array_sort order xs =
     (if comparable xs then sort_key cmp_num xs
      else if mset (order xs) = mset xs then order xs
      else xs)"

definition items_by_slot :: "(PlayerItem list \<Rightarrow> PlayerItem list) \<Rightarrow> PlayerItem list \<Rightarrow> string option list" where
  "items_by_slot order myItems = foldl place_item (replicate 7 None) (array_sort order myItems)"

subsection \<open>The snapshot\<close>

record GameStats =
  gameMode :: string
  gameTime :: rat

record PlayerScores =
  assists :: rat
  creepScore :: rat
  deaths :: rat
  kills :: rat
  wardScore :: rat

text \<open>
  The surroundings of one aggregation. A core dataset is \<open>None\<close> when its request fails
  (a player list that is no array is coerced to the empty list, \<open>Some []\<close>); the
  identity-keyed endpoints answer per candidate; \<open>up_sort_order\<close> is the order in which
  the JavaScript engine leaves an array sorted with an inconsistent comparator.
\<close>

record upstream =
  up_gamestats :: "GameStats option"
  up_eventdata :: "GameEvent list option"
  up_activeplayername :: "active_name option"
  up_playerlist :: "PlayerListEntry list option"
  up_playerscores :: "string \<Rightarrow> PlayerScores option"
  up_playeritems :: "string \<Rightarrow> items_json option"
  up_sort_order :: "PlayerItem list \<Rightarrow> PlayerItem list"

datatype fetch_error = CoreFetchFailed

text \<open>
  The fields of the snapshot followed here (mode name, resolved id, runes, spells,
  abilities, per-minute rates, team tallies, icon URLs and the raw copies are left out).
\<close>

record AggregatedSnapshot =
  error :: bool
  game_mode :: string
  game_time :: rat
  player_name :: string
  player_champion :: string
  player_team :: string
  player_level :: int
  stats_kills :: rat
  stats_deaths :: rat
  stats_assists :: rat
  stats_cs :: rat
  stats_vision :: rat
  items :: "string option list"
  objectives :: ObjectiveTimers

definition getAggregatedSnapshot :: "upstream \<Rightarrow> fetch_error + AggregatedSnapshot" where
  "getAggregatedSnapshot up =
     (case (up_gamestats up, up_eventdata up, up_activeplayername up, up_playerlist up) of
        (Some gameStats, Some events, Some activePlayerName, Some players) \<Rightarrow>
          (let ap = normalize_active activePlayerName;
               me = resolve_me activePlayerName players;
               candidates = riotIdCandidates activePlayerName me;
               myScores = fst (fetchWithRiotIdFallback (up_playerscores up) candidates);
               myItems = fetch_items (up_playeritems up) candidates
           in Inr \<lparr>error = False,
                   game_mode = gameMode gameStats,
                   game_time = gameTime gameStats,
                   player_name =
                     (if apFullRiotId ap \<noteq> [] then apFullRiotId ap
                      else if apString ap \<noteq> [] then apString ap else apGameName ap),
                   player_champion = (case me of None \<Rightarrow> [] | Some p \<Rightarrow> opt_str (championName p)),
                   player_team = (case me of None \<Rightarrow> [] | Some p \<Rightarrow> opt_str (team p)),
                   player_level =
                     (case me of None \<Rightarrow> 0
                      | Some p \<Rightarrow> (case level p of None \<Rightarrow> 0 | Some l \<Rightarrow> l)),
                   stats_kills = (case myScores of None \<Rightarrow> 0 | Some sc \<Rightarrow> kills sc),
                   stats_deaths = (case myScores of None \<Rightarrow> 0 | Some sc \<Rightarrow> deaths sc),
                   stats_assists = (case myScores of None \<Rightarrow> 0 | Some sc \<Rightarrow> assists sc),
                   stats_cs = (case myScores of None \<Rightarrow> 0 | Some sc \<Rightarrow> creepScore sc),
                   stats_vision = (case myScores of None \<Rightarrow> 0 | Some sc \<Rightarrow> wardScore sc),
                   items = items_by_slot (up_sort_order up) myItems,
                   objectives = computeObjectiveTimers (gameTime gameStats) events\<rparr>)
      | _ \<Rightarrow> Inl CoreFetchFailed)"

text \<open>
  The engine is given \<open>getSnapshot: async () => await getAggregatedSnapshot()\<close>: what a
  tick reads of the aggregated snapshot, and nothing when the aggregation fails.
\<close>

definition snapshot_like :: "AggregatedSnapshot \<Rightarrow> SnapshotLike" where
  "snapshot_like snap =
     \<lparr>snap_time = Some (game_time snap),
      snap_mode = Some (game_mode snap),
      snap_dragon_next = Some (d_nextSpawnTime (dragon (objectives snap))),
      snap_herald_next = Some (h_nextSpawnTime (herald (objectives snap))),
      snap_baron_next = Some (b_nextSpawnTime (baron (objectives snap)))\<rparr>"

definition getSnapshot :: "upstream \<Rightarrow> SnapshotLike option" where
  "getSnapshot up =
     (case getAggregatedSnapshot up of Inl e \<Rightarrow> None | Inr snap \<Rightarrow> Some (snapshot_like snap))"

subsection \<open>Notions used to state the properties of the engine\<close>

text \<open>
  The occurrence a tip is about, as its payload shows it: the rule id, the lead, and the
  wave index (cannon wave) or the objective with its rounded next-spawn time.
\<close>

datatype occurrence = WaveOccurrence int | SpawnOccurrence objective int

definition tip_occurrence :: "TipPayload \<Rightarrow> string \<times> rat \<times> occurrence" where
  "tip_occurrence p =
     (case tip_metadata p of
        WaveMeta lead wi st \<Rightarrow> (tip_id p, lead, WaveOccurrence wi)
      | ObjectiveMeta lead obj next \<Rightarrow> (tip_id p, lead, SpawnOccurrence obj (Math_round next)))"

fun key_of :: "string \<times> rat \<times> occurrence \<Rightarrow> FiredKey" where
  "key_of (rid, lead, WaveOccurrence wi) = cannon_key rid lead wi"
| "key_of (rid, lead, SpawnOccurrence obj n) =
     rid @ '':'' @ objective_name obj @ '':'' @ String_of_number lead @ '':''
       @ String_of_number (of_int n)"

text \<open>A rule passes the filters at the head of the rule loop.\<close>

definition applicable :: "Rule \<Rightarrow> SnapshotLike \<Rightarrow> bool" where
  "applicable rule snap =
     (rule_enabled rule \<noteq> Some False
      \<and> inPhase (rule_when rule) (snap_now snap)
      \<and> modeAllowed (rule_when rule) (snap_mode_str snap))"

text \<open>
  At this snapshot the rule has an occurrence and a lead inside the firing window, and
  their key is \<open>k\<close>.
\<close>

definition due :: "Rule \<Rightarrow> SnapshotLike \<Rightarrow> FiredKey \<Rightarrow> bool" where
  "due rule snap k =
     (case rule_trigger rule of
        Some (CannonWave leadSeconds) \<Rightarrow>
          snap_now snap < 1200
          \<and> (\<exists>w \<in> set (getNextCannonWavesBefore20 (snap_now snap)).
               \<exists>lead \<in> set (getLeadList leadSeconds).
                 withinWindow (of_int (spawnTime w) - snap_now snap) lead
                 \<and> cannon_key (rule_id rule) lead (waveIndex w) = k)
      | Some (ObjectiveSpawn obj leadSeconds) \<Rightarrow>
          (case safeNext snap obj of
             None \<Rightarrow> False
           | Some next \<Rightarrow>
               0 < next \<and> 0 < next - snap_now snap
               \<and> (\<exists>lead \<in> set (getLeadList leadSeconds).
                     withinWindow (next - snap_now snap) lead
                     \<and> objective_key (rule_id rule) obj lead next = k))
      | _ \<Rightarrow> False)"

text \<open>
  The throttle check of a rule at wall-clock \<open>nowMs\<close>, for a key last emitted at \<open>prev\<close>
  (\<open>this.lastFiredAtMs.get(key) || 0\<close>).
\<close>

definition throttled :: "Rule \<Rightarrow> int \<Rightarrow> int option \<Rightarrow> bool" where
  "throttled rule nowMs prev =
     (throttleMs rule > 0
      \<and> nowMs - (case prev of None \<Rightarrow> 0 | Some p \<Rightarrow> p) < throttleMs rule)"

text \<open>
  What every piece of a tick does to the engine, relative to the state it starts from:
  the fired set grows by exactly the keys of the tips emitted, which are new and pairwise
  different; clock baseline and rule set stay; a throttle timestamp changes only for a key
  emitted, to the current wall-clock.
\<close>

definition sound_step :: "int \<Rightarrow> TipsEngine \<Rightarrow> outcome \<Rightarrow> bool" where
  "sound_step nowMs s r =
     (case r of (e, s', out) \<Rightarrow>
        fired s' = fired s \<union> set (map tip_key out)
        \<and> distinct (map tip_key out)
        \<and> set (map tip_key out) \<inter> fired s = {}
        \<and> lastNow s' = lastNow s
        \<and> config s' = config s
        \<and> (\<forall>k. lastFiredAtMs s' k = lastFiredAtMs s k
                 \<or> (k \<in> set (map tip_key out) \<and> lastFiredAtMs s' k = Some nowMs)))"

text \<open>Key \<open>k\<close> is recorded, or its throttle timestamp is still the one of the tick's start.\<close>

definition pending :: "FiredKey \<Rightarrow> int option \<Rightarrow> TipsEngine \<Rightarrow> bool" where
  "pending k p0 s = (k \<in> fired s \<or> lastFiredAtMs s k = p0)"

subsection \<open>A rule file and a match, for the examples\<close>

text \<open>The rule of the shipped example document, and variants of it.\<close>

definition dragon_channel :: TipChannelOverlay where
  "dragon_channel =
     \<lparr>chan_type = ''overlay'', chan_severity = Some ''warning'',
      chan_icon = Some [CHR 0xF0, CHR 0x9F, CHR 0x90, CHR 0x89],
      chan_title = Some ''Dragon in {lead}s'', chan_body = Some ''Group and secure vision.'',
      chan_stickyMs = None\<rparr>"

definition dragon_prep_30 :: Rule where
  "dragon_prep_30 =
     \<lparr>rule_id = ''dragon_prep_30'', rule_when = None,
      rule_trigger = Some (ObjectiveSpawn Dragon (OneLead 30)),
      rule_notify = Some \<lparr>channels = [dragon_channel], throttleSec = None\<rparr>,
      rule_enabled = None\<rparr>"

definition objectives_config :: TipsConfigV1 where
  "objectives_config =
     \<lparr>modules = [\<lparr>mod_id = ''objectives'', mod_rules = [dragon_prep_30], mod_enabled = None\<rparr>]\<rparr>"

text \<open>The same rule with \<open>throttleSec: 10\<close>.\<close>

definition dragon_prep_throttled :: Rule where
  "dragon_prep_throttled =
     dragon_prep_30\<lparr>rule_notify := Some \<lparr>channels = [dragon_channel], throttleSec = Some 10\<rparr>\<rparr>"

definition throttled_config :: TipsConfigV1 where
  "throttled_config =
     \<lparr>modules = [\<lparr>mod_id = ''objectives'', mod_rules = [dragon_prep_throttled], mod_enabled = None\<rparr>]\<rparr>"

text \<open>A cannon-wave rule with two leads.\<close>

definition cannon_rule :: Rule where
  "cannon_rule =
     \<lparr>rule_id = ''cannon'', rule_when = None,
      rule_trigger = Some (CannonWave (Leads [60, 5])),
      rule_notify = None, rule_enabled = None\<rparr>"

text \<open>
  A rule whose document has no trigger, placed between the cannon rule and the dragon
  rule; and the same rule set without it.
\<close>

definition broken_rule :: Rule where
  "broken_rule =
     \<lparr>rule_id = ''broken'', rule_when = None, rule_trigger = None, rule_notify = None,
      rule_enabled = None\<rparr>"

definition broken_config :: TipsConfigV1 where
  "broken_config =
     \<lparr>modules = [\<lparr>mod_id = ''tips'', mod_rules = [cannon_rule, broken_rule, dragon_prep_30],
                  mod_enabled = None\<rparr>]\<rparr>"

definition repaired_config :: TipsConfigV1 where
  "repaired_config =
     \<lparr>modules = [\<lparr>mod_id = ''tips'', mod_rules = [cannon_rule, dragon_prep_30],
                  mod_enabled = None\<rparr>]\<rparr>"

text \<open>What a tick reads at game time \<open>t\<close> in a match without objective kills.\<close>

definition quiet_snapshot :: "rat \<Rightarrow> SnapshotLike" where
  "quiet_snapshot t =
     \<lparr>snap_time = Some t, snap_mode = Some ''CLASSIC'',
      snap_dragon_next = Some (nextDragonAt t None),
      snap_herald_next = Some (nextHeraldAt t None),
      snap_baron_next = Some (nextBaronAt t None)\<rparr>"

text \<open>The upstream of a running match at game time \<open>t\<close> with event log \<open>events\<close>.\<close>

definition match_upstream :: "rat \<Rightarrow> GameEvent list \<Rightarrow> upstream" where
  "match_upstream t events =
     \<lparr>up_gamestats = Some \<lparr>gameMode = ''CLASSIC'', gameTime = t\<rparr>,
      up_eventdata = Some events,
      up_activeplayername = Some (ActiveString ''Ahri''),
      up_playerlist = Some [],
      up_playerscores = (\<lambda>c. None),
      up_playeritems = (\<lambda>c. None),
      up_sort_order = (\<lambda>xs. xs)\<rparr>"

text \<open>
  Four ticks of a match without kills, crossing the 30-second window of the first
  dragon (spawn at 300) once.
\<close>

definition crossing :: "event list" where
  "crossing =
     [Tick (Some (quiet_snapshot 269)) 1700000000000,
      Tick (Some (quiet_snapshot 270)) 1700000001000,
      Tick (Some (quiet_snapshot 271)) 1700000002000,
      Tick (Some (quiet_snapshot 285)) 1700000003000]"

text \<open>
  A firing at game time 270, then a clock regression to 269 one second later (which
  clears the fired set).
\<close>

text \<open>A step of the tick leaves key \<open>k\<close> alone: no tip for it, its throttle timestamp as before.\<close>

definition quiet_for :: "FiredKey \<Rightarrow> int option \<Rightarrow> outcome \<Rightarrow> bool" where
  "quiet_for k p0 r =
     (case r of (e, s', out) \<Rightarrow> k \<notin> set (map tip_key out) \<and> lastFiredAtMs s' k = p0)"

definition fire_then_regress :: "event list" where
  "fire_then_regress =
     [Tick (Some (quiet_snapshot 270)) 1700000000000,
      Tick (Some (quiet_snapshot 269)) 1700000001000]"

text \<open>A firing at game time 270 followed by a tick at 271.\<close>

definition fire_then_advance :: "event list" where
  "fire_then_advance =
     [Tick (Some (quiet_snapshot 270)) 1700000000000,
      Tick (Some (quiet_snapshot 271)) 1700000001000]"

text \<open>The last event of a kind in a log, and kill events for the examples.\<close>

definition last_kill :: "string \<Rightarrow> GameEvent list \<Rightarrow> GameEvent option" where
  "last_kill name events =
     (case filter (\<lambda>ev. EventName ev = name) events of
        [] \<Rightarrow> None
      | ev # evs \<Rightarrow> Some (last (ev # evs)))"

definition kill_at :: "string \<Rightarrow> rat \<Rightarrow> GameEvent" where
  "kill_at name t = \<lparr>EventName = name, EventTime = t, DragonType = None, KillerName = None\<rparr>"

text \<open>
  An item entry is written to position \<open>i\<close>: its slot is the number \<open>i\<close>, within 0..6,
  and its display name is present and not empty.
\<close>

definition lands_at :: "nat \<Rightarrow> PlayerItem \<Rightarrow> bool" where
  "lands_at i item =
     (item_slot item = NumberSlot (of_nat i) \<and> i \<le> 6 \<and> opt_str (item_displayName item) \<noteq> [])"

definition mk_item :: "string \<Rightarrow> rat \<Rightarrow> PlayerItem" where
  "mk_item name slot = \<lparr>item_displayName = Some name, item_slot = NumberSlot slot\<rparr>"

text \<open>
  An item list with three entries for slot 3, an entry whose slot is the string
  \<open>"abc"\<close>, and two entries for slot 2 around an entry for slot 1; and the order in which
  one engine leaves it (entries of slot 1 and 2 moved to the front, the later entry of
  slot 2 before the earlier one).
\<close>

definition odd_items :: "PlayerItem list" where
  "odd_items =
     [mk_item ''n0'' 3, mk_item ''n1'' 3, mk_item ''n2'' 3,
      \<lparr>item_displayName = Some ''n3'', item_slot = OtherSlot None\<rparr>,
      mk_item ''n4'' 2, mk_item ''n5'' 1, mk_item ''n6'' 2]"

definition odd_order :: "PlayerItem list \<Rightarrow> PlayerItem list" where
  "odd_order xs =
     [mk_item ''n5'' 1, mk_item ''n6'' 2, mk_item ''n0'' 3, mk_item ''n1'' 3, mk_item ''n2'' 3,
      \<lparr>item_displayName = Some ''n3'', item_slot = OtherSlot None\<rparr>, mk_item ''n4'' 2]"

text \<open>
  The selection of \<open>me\<close> in \<open>getRawDump\<close>, the sibling of the roster loop: one \<open>find\<close>
  per kind of match, in order of precedence (strict equality, no normalisation).
\<close>

definition rawdump_me :: "active_name \<Rightarrow> PlayerListEntry list \<Rightarrow> PlayerListEntry option" where
  "rawdump_me a players =
     (let ap = normalize_active a in
      case find (\<lambda>p. buildFullRiotId (Some p) = apFullRiotId ap) players of
        Some p \<Rightarrow> Some p
      | None \<Rightarrow>
     (case find (\<lambda>p. riotIdGameName p = Some (apGameName ap)
                      \<and> riotIdTagLine p = Some (apTagLine ap)) players of
        Some p \<Rightarrow> Some p
      | None \<Rightarrow>
     (case find (\<lambda>p. riotIdGameName p = Some (apGameName ap)) players of
        Some p \<Rightarrow> Some p
      | None \<Rightarrow>
     (case find (\<lambda>p. summonerName p = Some (apString ap)) players of
        Some p \<Rightarrow> Some p
      | None \<Rightarrow> (case players of [] \<Rightarrow> None | p # ps \<Rightarrow> Some p)))))"

text \<open>Roster entries for the examples: riot id, game name, tag line, summoner name.\<close>

definition player :: "string option \<Rightarrow> string option \<Rightarrow> string option \<Rightarrow> string option \<Rightarrow> PlayerListEntry" where
  "player rid gn tag sn =
     \<lparr>riotId = rid, riotIdGameName = gn, riotIdTagLine = tag, summonerName = sn,
      championName = None, team = None, level = None\<rparr>"

text \<open>
  A roster with a name-only match (same game name, other tag) before a name+tag match
  (whose game name carries a trailing blank, so that the composed full id differs) and a
  legacy-name match, for the active identity \<open>{riotIdGameName: "Foo", riotIdTagLine: "EUW"}\<close>.
\<close>

definition name_only_entry :: PlayerListEntry where
  "name_only_entry = player None (Some ''Foo'') (Some ''NA1'') (Some ''Other'')"

definition name_tag_entry :: PlayerListEntry where
  "name_tag_entry = player None (Some ''Foo '') (Some ''EUW'') (Some ''Another'')"

definition legacy_entry :: PlayerListEntry where
  "legacy_entry = player None None None (Some ''Foo'')"

text \<open>
  A roster with a legacy-name match before a name-only match, for the active identity
  string \<open>"Foo"\<close>.
\<close>

definition legacy_first :: PlayerListEntry where
  "legacy_first = player None (Some ''Bar'') (Some ''EUW'') (Some ''Foo'')"

definition name_second :: PlayerListEntry where
  "name_second = player None (Some ''Foo'') (Some ''EUW'') (Some ''Baz'')"

text \<open>
  An upstream whose core datasets and scores answer while the items endpoint fails for
  every identity.
\<close>

definition partial_upstream :: upstream where
  "partial_upstream =
     \<lparr>up_gamestats = Some \<lparr>gameMode = ''CLASSIC'', gameTime = 600\<rparr>,
      up_eventdata = Some [kill_at ''DragonKill'' 350],
      up_activeplayername = Some (ActiveObject None (Some ''Foo'') (Some ''EUW'')),
      up_playerlist = Some [player (Some ''Foo#EUW'') (Some ''Foo'') (Some ''EUW'') (Some ''Foo'')],
      up_playerscores =
        (\<lambda>c. if c = ''Foo#EUW''
              then Some \<lparr>assists = 3, creepScore = 80, deaths = 1, kills = 2, wardScore = 5\<rparr>
              else None),
      up_playeritems = (\<lambda>c. None),
      up_sort_order = (\<lambda>xs. xs)\<rparr>"

text \<open>
  The tips of a sequence of ticks, each with the wall-clock reading of the tick that
  emitted it; the wall-clock readings at which a key was emitted; and readings that are
  at least \<open>T\<close> apart from their predecessor, starting after \<open>prev\<close>.
\<close>

fun stamped_run :: "TipsEngine \<Rightarrow> event list \<Rightarrow> (int \<times> TipPayload) list" where
  "stamped_run s [] = []"
| "stamped_run s (Tick snapshot nowMs # evs) =
     (case tick s snapshot nowMs of
        (s1, out1) \<Rightarrow> map (Pair nowMs) out1 @ stamped_run s1 evs)"
| "stamped_run s (Reload cfg # evs) = stamped_run (reload cfg s) evs"

definition stamps_of :: "FiredKey \<Rightarrow> (int \<times> TipPayload) list \<Rightarrow> int list" where
  "stamps_of k outs = map fst (filter (\<lambda>(t, p). tip_key p = k) outs)"

fun spaced :: "int \<Rightarrow> int \<Rightarrow> int list \<Rightarrow> bool" where
  "spaced T prev [] = True"
| "spaced T prev (t # ts) = (T \<le> t - prev \<and> spaced T t ts)"

definition prev_of :: "int option \<Rightarrow> int" where
  "prev_of p = (case p of None \<Rightarrow> 0 | Some t \<Rightarrow> t)"

text \<open>Every rule of a configuration has a throttle interval of at least \<open>T\<close> milliseconds.\<close>

definition all_throttled :: "int \<Rightarrow> TipsConfigV1 \<Rightarrow> bool" where
  "all_throttled T cfg = (\<forall>m \<in> set (modules cfg). \<forall>r \<in> set (mod_rules m). T \<le> throttleMs r)"

text \<open>
  A step of the tick emits a key only when at least \<open>T\<close> milliseconds have passed since
  the timestamp the key had at the start, and stamps it with the current wall-clock.
\<close>

definition gapped :: "int \<Rightarrow> int \<Rightarrow> TipsEngine \<Rightarrow> outcome \<Rightarrow> bool" where
  "gapped T nowMs s r =
     (case r of (e, s', out) \<Rightarrow>
        (\<forall>p \<in> set out. T \<le> nowMs - prev_of (lastFiredAtMs s (tip_key p))
                       \<and> lastFiredAtMs s' (tip_key p) = Some nowMs))"

section \<open>Properties of the tips engine\<close>

lemma sound_skip: "sound_step nowMs s (e, s, [])"
  by (simp add: sound_step_def)

lemma sound_fire:
  "key \<notin> fired s \<Longrightarrow> tip_key payload = key \<Longrightarrow> sound_step nowMs s (fire rule nowMs key payload s)"
  by (auto simp: sound_step_def fire_def)

lemma sound_seq:
  assumes "sound_step nowMs s (None, s1, out1)" and "sound_step nowMs s1 (e, s2, out2)"
  shows "sound_step nowMs s (e, s2, out1 @ out2)"
  using assms unfolding sound_step_def
  apply (simp only: prod.case)
  apply (intro conjI)
  apply auto[1]
  apply auto[1]
  apply auto[1]
  apply simp
  apply simp
  apply (metis Un_iff set_append map_append)
  done

lemma sound_for_each:
  assumes "\<And>x s. sound_step nowMs s (body x s)"
  shows "sound_step nowMs s (for_each body xs s)"
proof (induction xs arbitrary: s)
  case Nil
  show ?case by (simp add: sound_skip)
next
  case (Cons x xs)
  obtain e s1 out1 where b: "body x s = (e, s1, out1)" by (cases "body x s") auto
  show ?case
  proof (cases e)
    case None
    obtain e2 s2 out2 where r: "for_each body xs s1 = (e2, s2, out2)"
      by (cases "for_each body xs s1") auto
    have "sound_step nowMs s (None, s1, out1)" using assms[of s x] b None by simp
    moreover have "sound_step nowMs s1 (e2, s2, out2)" using Cons.IH[of s1] r by simp
    ultimately show ?thesis using b None r by (simp add: sound_seq)
  next
    case (Some a)
    then show ?thesis using assms[of s x] b by simp
  qed
qed

lemma tip_key_cannon [simp]: "tip_key (cannon_payload rule lead w) = cannon_key (rule_id rule) lead (waveIndex w)"
  by (simp add: tip_key_def cannon_payload_def Let_def)

lemma tip_key_objective [simp]:
  "tip_key (objective_payload rule obj lead next) = objective_key (rule_id rule) obj lead next"
  by (simp add: tip_key_def objective_payload_def Let_def)

lemma sound_cannon_lead: "sound_step nowMs s (cannon_lead rule nowSec nowMs w lead s)"
  by (simp add: cannon_lead_def Let_def sound_skip sound_fire)

lemma sound_objective_lead: "sound_step nowMs s (objective_lead rule obj nowSec nowMs next lead s)"
  by (simp add: objective_lead_def Let_def sound_skip sound_fire)

lemma sound_run_trigger: "sound_step nowMs s (run_trigger snap nowSec nowMs rule trg s)"
  by (cases trg)
     (auto simp: sound_skip sound_for_each sound_cannon_lead sound_objective_lead
           split: option.splits)

lemma sound_eval_rule: "sound_step nowMs s (eval_rule snap nowSec mode nowMs rule s)"
  by (auto simp: eval_rule_def sound_skip sound_run_trigger split: option.splits)

lemma sound_eval_module: "sound_step nowMs s (eval_module snap nowSec mode nowMs m s)"
  by (auto simp: eval_module_def sound_skip sound_for_each sound_eval_rule)

lemma sound_tick_body:
  "sound_step nowMs ((if snap_now snap < lastNow s then s\<lparr>fired := {}\<rparr> else s)\<lparr>lastNow := snap_now snap\<rparr>)
     (tick_body s snap nowMs)"
  by (simp add: tick_body_def observe_clock_def Let_def sound_for_each sound_eval_module)

lemma tick_effect:
  assumes "tick s (Some snap) nowMs = (s', out)"
  shows "lastNow s' = snap_now snap"
    and "config s' = config s"
    and "fired s' = (if snap_now snap < lastNow s then {} else fired s) \<union> set (map tip_key out)"
    and "distinct (map tip_key out)"
    and "set (map tip_key out) \<inter> (if snap_now snap < lastNow s then {} else fired s) = {}"
    and "lastFiredAtMs s' k = lastFiredAtMs s k
         \<or> (k \<in> set (map tip_key out) \<and> lastFiredAtMs s' k = Some nowMs)"
proof -
  obtain e where tb: "tick_body s snap nowMs = (e, s', out)"
    using assms by (auto simp: tick_def split: prod.splits)
  have snd: "sound_step nowMs ((if snap_now snap < lastNow s then s\<lparr>fired := {}\<rparr> else s)\<lparr>lastNow := snap_now snap\<rparr>) (e, s', out)"
    using sound_tick_body[of nowMs snap s] tb by simp
  show "lastNow s' = snap_now snap" using snd by (simp add: sound_step_def)
  show "config s' = config s" using snd by (simp add: sound_step_def)
  show "fired s' = (if snap_now snap < lastNow s then {} else fired s) \<union> set (map tip_key out)"
    using snd by (simp add: sound_step_def)
  show "distinct (map tip_key out)" using snd by (simp add: sound_step_def)
  show "set (map tip_key out) \<inter> (if snap_now snap < lastNow s then {} else fired s) = {}"
    using snd by (auto simp: sound_step_def split: if_splits)
  show "lastFiredAtMs s' k = lastFiredAtMs s k
         \<or> (k \<in> set (map tip_key out) \<and> lastFiredAtMs s' k = Some nowMs)"
    using snd by (auto simp: sound_step_def split: if_splits)
qed

lemma run_lastNow: "run s evs = (s', out) \<Longrightarrow> lastNow s' = last (lastNow s # clocks evs)"
proof (induction evs arbitrary: s s' out)
  case Nil
  then show ?case by simp
next
  case (Cons ev evs)
  show ?case
  proof (cases ev)
    case (Reload cfg)
    then show ?thesis using Cons.IH[of "reload cfg s" s' out] Cons.prems
      by (simp add: reload_def)
  next
    case (Tick snapshot nowMs)
    show ?thesis
    proof (cases snapshot)
      case None
      then show ?thesis using Cons.IH[of s s' out] Cons.prems Tick by (simp add: tick_def)
    next
      case (Some snap)
      obtain s1 out1 where t: "tick s (Some snap) nowMs = (s1, out1)"
        by (cases "tick s (Some snap) nowMs") auto
      obtain s2 out2 where r: "run s1 evs = (s2, out2)" by (cases "run s1 evs") auto
      have "s' = s2" using Cons.prems Tick Some t r by auto
      then show ?thesis using Cons.IH[OF r] tick_effect(1)[OF t] Tick Some by simp
    qed
  qed
qed

lemma run_monotone_clock:
  assumes "sorted (lastNow s # clocks evs)" and "run s evs = (s', out)"
  shows "fired s' = fired s \<union> set (map tip_key out)
         \<and> distinct (map tip_key out)
         \<and> set (map tip_key out) \<inter> fired s = {}"
  using assms
proof (induction evs arbitrary: s s' out)
  case Nil
  then show ?case by simp
next
  case (Cons ev evs)
  show ?case
  proof (cases ev)
    case (Reload cfg)
    have "sorted (lastNow (reload cfg s) # clocks evs)"
      using Cons.prems(1) Reload by (simp add: reload_def)
    moreover have "run (reload cfg s) evs = (s', out)" using Cons.prems(2) Reload by simp
    ultimately show ?thesis using Cons.IH[of "reload cfg s" s' out] Reload
      by (simp add: reload_def)
  next
    case (Tick snapshot nowMs)
    show ?thesis
    proof (cases snapshot)
      case None
      have "run s evs = (s', out)" using Cons.prems(2) Tick None by (simp add: tick_def)
      moreover have "sorted (lastNow s # clocks evs)" using Cons.prems(1) Tick None by simp
      ultimately show ?thesis using Cons.IH[of s s' out] Tick None by simp
    next
      case (Some snap)
      obtain s1 out1 where t: "tick s (Some snap) nowMs = (s1, out1)"
        by (cases "tick s (Some snap) nowMs") auto
      obtain s2 out2 where r: "run s1 evs = (s2, out2)" by (cases "run s1 evs") auto
      have res: "s' = s2" "out = out1 @ out2" using Cons.prems(2) Tick Some t r by auto
      have le: "lastNow s \<le> snap_now snap" and srt: "sorted (snap_now snap # clocks evs)"
        using Cons.prems(1) Tick Some by auto
      have nl: "\<not> snap_now snap < lastNow s" using le by simp
      note te = tick_effect[OF t]
      have f1: "fired s1 = fired s \<union> set (map tip_key out1)" using te(3) nl by simp
      have d1: "distinct (map tip_key out1)" using te(4) .
      have i1: "set (map tip_key out1) \<inter> fired s = {}" using te(5) nl by simp
      have "sorted (lastNow s1 # clocks evs)" using te(1) srt by simp
      from Cons.IH[OF this r]
      have f2: "fired s2 = fired s1 \<union> set (map tip_key out2)"
        and d2: "distinct (map tip_key out2)"
        and i2: "set (map tip_key out2) \<inter> fired s1 = {}" by auto
      have a: "fired s' = fired s \<union> set (map tip_key out)" using f1 f2 res by auto
      have b: "distinct (map tip_key out)" using d1 d2 i2 f1 res by auto
      have c: "set (map tip_key out) \<inter> fired s = {}" using i1 i2 f1 res by auto
      show ?thesis using a b c by simp
    qed
  qed
qed

lemma sound_pending:
  "sound_step nowMs s (e, s1, out) \<Longrightarrow> pending k p0 s \<Longrightarrow> pending k p0 s1"
  by (auto simp: sound_step_def pending_def)

lemma sound_fired_mono:
  "sound_step nowMs s (e, s1, out) \<Longrightarrow> k \<in> fired s \<Longrightarrow> k \<in> fired s1"
  by (auto simp: sound_step_def)

lemma for_each_reaches:
  assumes snd: "\<And>y s. sound_step nowMs s (body y s)"
      and hit: "\<And>s s1 out. pending k p0 s \<Longrightarrow> body x s = (None, s1, out) \<Longrightarrow> k \<in> fired s1"
      and "x \<in> set xs" and "pending k p0 s" and "for_each body xs s = (None, s', out)"
  shows "k \<in> fired s'"
  using assms(3-)
proof (induction xs arbitrary: s out)
  case Nil
  then show ?case by simp
next
  case (Cons y ys)
  obtain e s1 out1 where b: "body y s = (e, s1, out1)" by (cases "body y s") auto
  have eN: "e = None" using Cons.prems(3) b by (cases e) auto
  obtain e2 s2 out2 where r: "for_each body ys s1 = (e2, s2, out2)"
    by (cases "for_each body ys s1") auto
  have res: "e2 = None" "s2 = s'" using Cons.prems(3) b eN r by auto
  have st: "sound_step nowMs s (None, s1, out1)" using snd[of s y] b eN by simp
  have p1: "pending k p0 s1" using sound_pending[OF st Cons.prems(2)] .
  have st2: "sound_step nowMs s1 (None, s', out2)" using sound_for_each[of nowMs body s1 ys, OF snd] r res by simp
  show ?case
  proof (cases "x = y")
    case True
    have "k \<in> fired s1" using hit[OF Cons.prems(2)] b eN True by simp
    then show ?thesis using sound_fired_mono[OF st2] by simp
  next
    case False
    then have "x \<in> set ys" using Cons.prems(1) by simp
    then show ?thesis using Cons.IH[OF _ p1] r res by simp
  qed
qed

lemma fire_hits:
  "\<not> throttled rule nowMs (lastFiredAtMs s key) \<Longrightarrow> fire rule nowMs key payload s = (e, s1, out)
   \<Longrightarrow> key \<in> fired s1"
  by (auto simp: fire_def throttled_def split: if_splits)

lemma cannon_lead_hits:
  assumes "pending k p0 s" and "\<not> throttled rule nowMs p0"
      and "withinWindow (of_int (spawnTime w) - nowSec) lead"
      and "cannon_key (rule_id rule) lead (waveIndex w) = k"
      and "cannon_lead rule nowSec nowMs w lead s = (e, s1, out)"
  shows "k \<in> fired s1"
proof (cases "k \<in> fired s")
  case True
  then show ?thesis using assms(3,4,5) by (auto simp: cannon_lead_def Let_def)
next
  case False
  then have "lastFiredAtMs s k = p0" using assms(1) by (simp add: pending_def)
  then show ?thesis using assms False fire_hits[of rule nowMs s k "cannon_payload rule lead w" e s1 out]
    by (auto simp: cannon_lead_def Let_def withinWindow_def)
qed

lemma objective_lead_hits:
  assumes "pending k p0 s" and "\<not> throttled rule nowMs p0"
      and "withinWindow (next - nowSec) lead"
      and "objective_key (rule_id rule) obj lead next = k"
      and "objective_lead rule obj nowSec nowMs next lead s = (e, s1, out)"
  shows "k \<in> fired s1"
proof (cases "k \<in> fired s")
  case True
  then show ?thesis using assms(3,4,5) by (auto simp: objective_lead_def Let_def)
next
  case False
  then have "lastFiredAtMs s k = p0" using assms(1) by (simp add: pending_def)
  then show ?thesis
    using assms False fire_hits[of rule nowMs s k "objective_payload rule obj lead next" e s1 out]
    by (auto simp: objective_lead_def Let_def withinWindow_def)
qed

lemma for_each_no_error:
  assumes "\<And>x s. fst (body x s) = None"
  shows "fst (for_each body xs s) = None"
proof (induction xs arbitrary: s)
  case Nil
  show ?case by simp
next
  case (Cons x xs)
  obtain e s1 out1 where b: "body x s = (e, s1, out1)" by (cases "body x s") auto
  have "e = None" using assms[of x s] b by simp
  then show ?case using b Cons.IH[of s1] by (auto split: prod.splits)
qed

lemma cannon_lead_no_error: "fst (cannon_lead rule nowSec nowMs w lead s) = None"
  by (simp add: cannon_lead_def fire_def Let_def)

lemma objective_lead_no_error: "fst (objective_lead rule obj nowSec nowMs next lead s) = None"
  by (simp add: objective_lead_def fire_def Let_def)

lemma run_trigger_no_error: "fst (run_trigger snap nowSec nowMs rule trg s) = None"
  by (cases trg)
     (auto simp: for_each_no_error cannon_lead_no_error objective_lead_no_error
           split: option.splits)

lemma run_trigger_hits:
  assumes "pending k p0 s" and "\<not> throttled rule nowMs p0"
      and "rule_trigger rule = Some trg" and "due rule snap k"
      and "run_trigger snap (snap_now snap) nowMs rule trg s = (e, s1, out)"
  shows "k \<in> fired s1"
proof (cases trg)
  case (CannonWave ls)
  from assms(3,4) CannonWave obtain w lead where
    lt: "snap_now snap < 1200"
    and w: "w \<in> set (getNextCannonWavesBefore20 (snap_now snap))"
    and l: "lead \<in> set (getLeadList ls)"
    and win: "withinWindow (of_int (spawnTime w) - snap_now snap) lead"
    and key: "cannon_key (rule_id rule) lead (waveIndex w) = k"
    by (auto simp: due_def)
  let ?inner = "\<lambda>w. for_each (cannon_lead rule (snap_now snap) nowMs w) (getLeadList ls)"
  have run: "for_each ?inner (getNextCannonWavesBefore20 (snap_now snap)) s = (e, s1, out)"
    using assms(5) CannonWave lt by simp
  have eN: "e = None"
    using for_each_no_error[of ?inner "getNextCannonWavesBefore20 (snap_now snap)" s] run
    by (simp add: for_each_no_error cannon_lead_no_error)
  have inner_hit: "k \<in> fired t1" if "pending k p0 t" and "?inner w t = (None, t1, o1)" for t t1 o1
    using for_each_reaches[of nowMs "cannon_lead rule (snap_now snap) nowMs w" k p0 lead
        "getLeadList ls" t t1 o1] that l cannon_lead_hits[OF _ assms(2) win key]
    by (simp add: sound_cannon_lead)
  show ?thesis
    using for_each_reaches[of nowMs ?inner k p0 w "getNextCannonWavesBefore20 (snap_now snap)" s s1 out]
      inner_hit w assms(1) run eN
    by (simp add: sound_for_each sound_cannon_lead)
next
  case (ObjectiveSpawn obj ls)
  from assms(3,4) ObjectiveSpawn obtain nxt lead where
    nx: "safeNext snap obj = Some nxt" and pos: "0 < nxt" "0 < nxt - snap_now snap"
    and l: "lead \<in> set (getLeadList ls)"
    and win: "withinWindow (nxt - snap_now snap) lead"
    and key: "objective_key (rule_id rule) obj lead nxt = k"
    by (auto simp: due_def split: option.splits)
  have run: "for_each (objective_lead rule obj (snap_now snap) nowMs nxt) (getLeadList ls) s = (e, s1, out)"
    using assms(5) ObjectiveSpawn nx pos by simp
  have eN: "e = None"
    using for_each_no_error[of "objective_lead rule obj (snap_now snap) nowMs nxt" "getLeadList ls" s] run
    by (simp add: objective_lead_no_error)
  show ?thesis
    using for_each_reaches[of nowMs "objective_lead rule obj (snap_now snap) nowMs nxt" k p0 lead
        "getLeadList ls" s s1 out] l assms(1) run eN objective_lead_hits[OF _ assms(2) win key]
    by (simp add: sound_objective_lead)
next
  case (OtherTrigger t)
  then show ?thesis using assms(3,4) by (simp add: due_def)
qed

lemma eval_rule_hits:
  assumes "pending k p0 s" and "\<not> throttled rule nowMs p0"
      and "applicable rule snap" and "due rule snap k"
      and "eval_rule snap (snap_now snap) (snap_mode_str snap) nowMs rule s = (e, s1, out)"
  shows "k \<in> fired s1"
proof -
  obtain trg where trg: "rule_trigger rule = Some trg"
    using assms(4) by (cases "rule_trigger rule") (auto simp: due_def)
  have "run_trigger snap (snap_now snap) nowMs rule trg s = (e, s1, out)"
    using assms(3,5) trg by (simp add: eval_rule_def applicable_def)
  then show ?thesis using run_trigger_hits[OF assms(1,2) trg assms(4)] by simp
qed

lemma eval_module_hits:
  assumes "pending k p0 s" and "\<not> throttled rule nowMs p0"
      and "mod_enabled m \<noteq> Some False" and "rule \<in> set (mod_rules m)"
      and "applicable rule snap" and "due rule snap k"
      and "eval_module snap (snap_now snap) (snap_mode_str snap) nowMs m s = (None, s1, out)"
  shows "k \<in> fired s1"
  using for_each_reaches[of nowMs "eval_rule snap (snap_now snap) (snap_mode_str snap) nowMs" k p0
      rule "mod_rules m" s s1 out] assms eval_rule_hits[OF _ assms(2,5,6)]
  by (simp add: eval_module_def sound_eval_rule)

lemma tick_body_hits:
  assumes "tick_body s snap nowMs = (None, s', out)"
      and "m \<in> set (modules (config s))" and "mod_enabled m \<noteq> Some False"
      and "rule \<in> set (mod_rules m)" and "applicable rule snap" and "due rule snap k"
      and "\<not> throttled rule nowMs (lastFiredAtMs s k)"
  shows "k \<in> fired s'"
proof -
  let ?s1 = "(if snap_now snap < lastNow s then s\<lparr>fired := {}\<rparr> else s)\<lparr>lastNow := snap_now snap\<rparr>"
  have p: "pending k (lastFiredAtMs s k) ?s1" by (simp add: pending_def)
  have run: "for_each (eval_module snap (snap_now snap) (snap_mode_str snap) nowMs)
               (modules (config s)) ?s1 = (None, s', out)"
    using assms(1) by (auto simp: tick_body_def observe_clock_def Let_def split: if_splits)
  show ?thesis
    using for_each_reaches[of nowMs "eval_module snap (snap_now snap) (snap_mode_str snap) nowMs"
        k "lastFiredAtMs s k" m "modules (config s)" ?s1 s' out]
      eval_module_hits[OF _ assms(7,3,4,5,6)] assms(2) p run
    by (simp add: sound_eval_module)
qed

subsection \<open>Sequences of ticks\<close>

lemma run_append:
  "run s (evs1 @ evs2) =
     (case run s evs1 of (s1, out1) \<Rightarrow> (case run s1 evs2 of (s2, out2) \<Rightarrow> (s2, out1 @ out2)))"
proof (induction evs1 arbitrary: s)
  case Nil
  show ?case by (simp split: prod.splits)
next
  case (Cons ev evs1)
  show ?case
  proof (cases ev)
    case (Tick snapshot nowMs)
    then show ?thesis using Cons.IH by (simp split: prod.splits)
  next
    case (Reload cfg)
    then show ?thesis using Cons.IH by simp
  qed
qed

lemma clocks_append: "clocks (evs1 @ evs2) = clocks evs1 @ clocks evs2"
  by (induction evs1 rule: clocks.induct) auto

lemma tip_key_occurrence: "tip_key p = key_of (tip_occurrence p)"
  by (simp add: tip_key_def tip_occurrence_def objective_key_def split: tip_metadata.splits)

lemma distinct_occurrences:
  assumes "distinct (map tip_key out)"
  shows "distinct (map tip_occurrence out)"
proof -
  have "map tip_key out = map key_of (map tip_occurrence out)"
    by (simp add: tip_key_occurrence)
  then show ?thesis using assms by (metis distinct_map)
qed

lemma distinct_exactly_one:
  "distinct (map f xs) \<Longrightarrow> k \<in> set (map f xs) \<Longrightarrow> length (filter (\<lambda>x. f x = k) xs) = 1"
proof (induction xs)
  case Nil
  then show ?case by simp
next
  case (Cons x xs)
  show ?case
  proof (cases "f x = k")
    case True
    then have "k \<notin> set (map f xs)" using Cons.prems(1) by auto
    then have "filter (\<lambda>x. f x = k) xs = []" by (auto simp: filter_empty_conv)
    then show ?thesis using True by simp
  next
    case False
    then show ?thesis using Cons by auto
  qed
qed

lemma run_fires_due:
  assumes srt: "sorted (lastNow s # clocks evs)"
      and evs: "evs = evs1 @ Tick (Some snap) nowMs # evs2"
      and ok: "fst (tick_body (fst (run s evs1)) snap nowMs) = None"
      and m: "m \<in> set (modules (config (fst (run s evs1))))" "mod_enabled m \<noteq> Some False"
      and r: "rule \<in> set (mod_rules m)" "applicable rule snap" "due rule snap k"
      and thr: "\<not> throttled rule nowMs (lastFiredAtMs (fst (run s evs1)) k)"
      and fresh: "k \<notin> fired s"
  shows "length (filter (\<lambda>p. tip_key p = k) (snd (run s evs))) = 1"
proof -
  obtain s1 out1 where r1: "run s evs1 = (s1, out1)" by (cases "run s evs1") auto
  obtain e s2 out2 where tb: "tick_body s1 snap nowMs = (e, s2, out2)"
    by (cases "tick_body s1 snap nowMs") auto
  have eN: "e = None" using ok r1 tb by simp
  have t: "tick s1 (Some snap) nowMs = (s2, out2)" using tb by (simp add: tick_def)
  obtain s3 out3 where r3: "run s2 evs2 = (s3, out3)" by (cases "run s2 evs2") auto
  have out: "snd (run s evs) = out1 @ out2 @ out3"
    using evs r1 t r3 by (simp add: run_append)
  have srt1: "sorted (lastNow s # clocks evs1)"
    using srt evs by (simp add: clocks_append sorted_append)
  have f1: "fired s1 = fired s \<union> set (map tip_key out1)"
    using run_monotone_clock[OF srt1 r1] by simp
  have "last (lastNow s # clocks evs1) \<le> snap_now snap"
    using srt evs by (auto simp: clocks_append sorted_append)
  then have nl: "\<not> snap_now snap < lastNow s1" using run_lastNow[OF r1] by simp
  have f2: "fired s2 = fired s1 \<union> set (map tip_key out2)"
    using tick_effect(3)[OF t] nl by simp
  have "k \<in> fired s2"
    using tick_body_hits[of s1 snap nowMs s2 out2 m rule k] tb eN m r thr r1 by simp
  then have "k \<in> set (map tip_key out1) \<union> set (map tip_key out2)"
    using f1 f2 fresh by auto
  then have mem: "k \<in> set (map tip_key (snd (run s evs)))" using out by auto
  have "distinct (map tip_key (snd (run s evs)))"
    using run_monotone_clock[OF srt, of "fst (run s evs)" "snd (run s evs)"] by simp
  then show ?thesis using mem by (rule distinct_exactly_one)
qed

subsection \<open>Throttled keys\<close>

lemma fire_quiet:
  assumes "throttled rule nowMs p0" and "lastFiredAtMs s k = p0" and "tip_key payload = key"
  shows "quiet_for k p0 (fire rule nowMs key payload s)"
proof (cases "key = k")
  case True
  then show ?thesis using assms by (simp add: quiet_for_def fire_def throttled_def)
next
  case False
  then show ?thesis using assms by (auto simp: quiet_for_def fire_def)
qed

lemma for_each_quiet:
  assumes "\<And>x s. x \<in> set xs \<Longrightarrow> lastFiredAtMs s k = p0 \<Longrightarrow> quiet_for k p0 (body x s)"
      and "lastFiredAtMs s k = p0"
  shows "quiet_for k p0 (for_each body xs s)"
  using assms
proof (induction xs arbitrary: s)
  case Nil
  then show ?case by (simp add: quiet_for_def)
next
  case (Cons x xs)
  obtain e s1 out1 where b: "body x s = (e, s1, out1)" by (cases "body x s") auto
  have q1: "quiet_for k p0 (e, s1, out1)" using Cons.prems(1)[of x s] Cons.prems(2) b by simp
  show ?case
  proof (cases e)
    case (Some a)
    then show ?thesis using b q1 by simp
  next
    case None
    obtain e2 s2 out2 where r: "for_each body xs s1 = (e2, s2, out2)"
      by (cases "for_each body xs s1") auto
    have "lastFiredAtMs s1 k = p0" using q1 by (simp add: quiet_for_def)
    then have "quiet_for k p0 (for_each body xs s1)"
      using Cons.IH[of s1] Cons.prems(1) by simp
    then show ?thesis using b None r q1 by (auto simp: quiet_for_def)
  qed
qed

lemma cannon_lead_quiet:
  "throttled rule nowMs p0 \<Longrightarrow> lastFiredAtMs s k = p0
   \<Longrightarrow> quiet_for k p0 (cannon_lead rule nowSec nowMs w lead s)"
  by (simp add: cannon_lead_def Let_def fire_quiet) (simp add: quiet_for_def)

lemma objective_lead_quiet:
  "throttled rule nowMs p0 \<Longrightarrow> lastFiredAtMs s k = p0
   \<Longrightarrow> quiet_for k p0 (objective_lead rule obj nowSec nowMs nxt lead s)"
  by (simp add: objective_lead_def Let_def fire_quiet) (simp add: quiet_for_def)

lemma run_trigger_quiet:
  assumes "throttled rule nowMs p0" and "lastFiredAtMs s k = p0"
  shows "quiet_for k p0 (run_trigger snap nowSec nowMs rule trg s)"
proof (cases trg)
  case (CannonWave ls)
  have "quiet_for k p0
          (for_each (\<lambda>w. for_each (cannon_lead rule nowSec nowMs w) (getLeadList ls))
             (getNextCannonWavesBefore20 nowSec) s)"
    by (rule for_each_quiet, rule for_each_quiet, rule cannon_lead_quiet) (use assms in auto)
  then show ?thesis using CannonWave assms(2) by (simp add: quiet_for_def)
next
  case (ObjectiveSpawn obj ls)
  have "quiet_for k p0 (for_each (objective_lead rule obj nowSec nowMs nxt) (getLeadList ls) s)" for nxt
    by (rule for_each_quiet, rule objective_lead_quiet) (use assms in auto)
  then show ?thesis using ObjectiveSpawn assms(2) by (simp add: quiet_for_def split: option.splits)
next
  case (OtherTrigger t)
  then show ?thesis using assms(2) by (simp add: quiet_for_def)
qed

lemma eval_rule_quiet:
  assumes "throttled rule nowMs p0" and "lastFiredAtMs s k = p0"
  shows "quiet_for k p0 (eval_rule snap nowSec mode nowMs rule s)"
  using run_trigger_quiet[OF assms] assms(2)
  by (auto simp: eval_rule_def quiet_for_def split: option.splits)

lemma eval_module_quiet:
  assumes "\<And>r. r \<in> set (mod_rules m) \<Longrightarrow> throttled r nowMs p0" and "lastFiredAtMs s k = p0"
  shows "quiet_for k p0 (eval_module snap nowSec mode nowMs m s)"
proof (cases "mod_enabled m = Some False")
  case True
  then show ?thesis using assms(2) by (simp add: eval_module_def quiet_for_def)
next
  case False
  have "quiet_for k p0 (for_each (eval_rule snap nowSec mode nowMs) (mod_rules m) s)"
    by (rule for_each_quiet, rule eval_rule_quiet) (use assms in auto)
  then show ?thesis using False by (simp add: eval_module_def)
qed

lemma tick_body_quiet:
  assumes "\<And>m r. m \<in> set (modules (config s)) \<Longrightarrow> r \<in> set (mod_rules m)
             \<Longrightarrow> throttled r nowMs (lastFiredAtMs s k)"
  shows "quiet_for k (lastFiredAtMs s k) (tick_body s snap nowMs)"
proof -
  let ?s1 = "observe_clock s (snap_now snap)"
  have c: "modules (config ?s1) = modules (config s)" and l: "lastFiredAtMs ?s1 k = lastFiredAtMs s k"
    by (simp_all add: observe_clock_def)
  have "quiet_for k (lastFiredAtMs s k)
          (for_each (eval_module snap (snap_now snap) (snap_mode_str snap) nowMs)
             (modules (config s)) ?s1)"
    by (rule for_each_quiet, rule eval_module_quiet) (use assms l in auto)
  then show ?thesis using c by (simp add: tick_body_def Let_def)
qed

subsection \<open>Wall-clock distance of emissions\<close>

lemma gapped_skip: "gapped T nowMs s (e, s, [])"
  by (simp add: gapped_def)

lemma gapped_fire:
  "0 < T \<Longrightarrow> T \<le> throttleMs rule \<Longrightarrow> tip_key payload = key
   \<Longrightarrow> gapped T nowMs s (fire rule nowMs key payload s)"
  by (auto simp: gapped_def fire_def prev_of_def split: option.splits)

lemma gapped_seq:
  assumes g1: "gapped T nowMs s (None, s1, out1)" and s1: "sound_step nowMs s (None, s1, out1)"
      and g2: "gapped T nowMs s1 (e, s2, out2)" and s2: "sound_step nowMs s1 (e, s2, out2)"
  shows "gapped T nowMs s (e, s2, out1 @ out2)"
proof -
  have "T \<le> nowMs - prev_of (lastFiredAtMs s (tip_key p)) \<and> lastFiredAtMs s2 (tip_key p) = Some nowMs"
    if "p \<in> set out1 \<union> set out2" for p
  proof (cases "p \<in> set out1")
    case True
    then have a: "T \<le> nowMs - prev_of (lastFiredAtMs s (tip_key p))"
      and b: "lastFiredAtMs s1 (tip_key p) = Some nowMs" using g1 by (auto simp: gapped_def)
    have "\<forall>k. lastFiredAtMs s2 k = lastFiredAtMs s1 k
               \<or> (k \<in> set (map tip_key out2) \<and> lastFiredAtMs s2 k = Some nowMs)"
      using s2 by (simp add: sound_step_def)
    then have "lastFiredAtMs s2 (tip_key p) = Some nowMs" using b by metis
    then show ?thesis using a by simp
  next
    case False
    then have p2: "p \<in> set out2" using that by simp
    then have a: "T \<le> nowMs - prev_of (lastFiredAtMs s1 (tip_key p))"
      and b: "lastFiredAtMs s2 (tip_key p) = Some nowMs" using g2 by (auto simp: gapped_def)
    have "tip_key p \<notin> fired s1" using p2 s2 by (auto simp: sound_step_def)
    then have "tip_key p \<notin> set (map tip_key out1)" using s1 by (auto simp: sound_step_def)
    moreover have "\<forall>k. lastFiredAtMs s1 k = lastFiredAtMs s k
               \<or> (k \<in> set (map tip_key out1) \<and> lastFiredAtMs s1 k = Some nowMs)"
      using s1 by (simp add: sound_step_def)
    ultimately have "lastFiredAtMs s1 (tip_key p) = lastFiredAtMs s (tip_key p)" by metis
    then show ?thesis using a b by simp
  qed
  then show ?thesis by (simp add: gapped_def)
qed

lemma gapped_for_each:
  assumes "\<And>x s. x \<in> set xs \<Longrightarrow> gapped T nowMs s (body x s)"
      and "\<And>x s. sound_step nowMs s (body x s)"
  shows "gapped T nowMs s (for_each body xs s)"
  using assms(1)
proof (induction xs arbitrary: s)
  case Nil
  show ?case by (simp add: gapped_skip)
next
  case (Cons x xs)
  obtain e s1 out1 where b: "body x s = (e, s1, out1)" by (cases "body x s") auto
  have g1: "gapped T nowMs s (e, s1, out1)" using Cons.prems[of x s] b by simp
  show ?case
  proof (cases e)
    case (Some a)
    then show ?thesis using b g1 by simp
  next
    case None
    obtain e2 s2 out2 where r: "for_each body xs s1 = (e2, s2, out2)"
      by (cases "for_each body xs s1") auto
    have st1: "sound_step nowMs s (None, s1, out1)" using assms(2)[of s x] b None by simp
    have g2: "gapped T nowMs s1 (e2, s2, out2)" using Cons.IH[of s1] Cons.prems r by simp
    have st2: "sound_step nowMs s1 (e2, s2, out2)"
      using sound_for_each[of nowMs body s1 xs] assms(2) r by simp
    show ?thesis using gapped_seq[OF _ st1 g2 st2] g1 None b r by simp
  qed
qed

lemma gapped_eval_rule:
  assumes "0 < T" and "T \<le> throttleMs rule"
  shows "gapped T nowMs s (eval_rule snap nowSec mode nowMs rule s)"
proof -
  have cl: "gapped T nowMs t (cannon_lead rule nowSec nowMs w lead t)" for w lead t
    using assms by (simp add: cannon_lead_def Let_def gapped_skip gapped_fire)
  have ol: "gapped T nowMs t (objective_lead rule obj nowSec nowMs nxt lead t)" for obj nxt lead t
    using assms by (simp add: objective_lead_def Let_def gapped_skip gapped_fire)
  have rt: "gapped T nowMs s (run_trigger snap nowSec nowMs rule trg s)" for trg
  proof (cases trg)
    case (CannonWave ls)
    have "gapped T nowMs s
            (for_each (\<lambda>w. for_each (cannon_lead rule nowSec nowMs w) (getLeadList ls))
               (getNextCannonWavesBefore20 nowSec) s)"
      by (intro gapped_for_each cl sound_for_each sound_cannon_lead)
    then show ?thesis using CannonWave by (simp add: gapped_skip)
  next
    case (ObjectiveSpawn obj ls)
    have "gapped T nowMs s (for_each (objective_lead rule obj nowSec nowMs nxt) (getLeadList ls) s)" for nxt
      by (intro gapped_for_each ol sound_objective_lead)
    then show ?thesis using ObjectiveSpawn by (simp add: gapped_skip split: option.splits)
  next
    case (OtherTrigger t)
    then show ?thesis by (simp add: gapped_skip)
  qed
  show ?thesis using rt by (simp add: eval_rule_def gapped_skip split: option.splits)
qed

lemma gapped_tick:
  assumes "0 < T" and "all_throttled T (config s)" and "tick s (Some snap) nowMs = (s', out)"
  shows "\<forall>p \<in> set out. T \<le> nowMs - prev_of (lastFiredAtMs s (tip_key p))
                       \<and> lastFiredAtMs s' (tip_key p) = Some nowMs"
proof -
  let ?s1 = "observe_clock s (snap_now snap)"
  obtain e where tb: "tick_body s snap nowMs = (e, s', out)"
    using assms(3) by (auto simp: tick_def split: prod.splits)
  have em: "gapped T nowMs t (eval_module snap (snap_now snap) (snap_mode_str snap) nowMs m t)"
    if "m \<in> set (modules (config s))" for m t
  proof (cases "mod_enabled m = Some False")
    case True
    then show ?thesis by (simp add: eval_module_def gapped_skip)
  next
    case False
    have "gapped T nowMs t (for_each (eval_rule snap (snap_now snap) (snap_mode_str snap) nowMs) (mod_rules m) t)"
    proof (rule gapped_for_each)
      fix x u assume "x \<in> set (mod_rules m)"
      then have "T \<le> throttleMs x" using assms(2) that by (auto simp: all_throttled_def)
      then show "gapped T nowMs u (eval_rule snap (snap_now snap) (snap_mode_str snap) nowMs x u)"
        using assms(1) by (rule gapped_eval_rule[rotated])
    next
      fix x u show "sound_step nowMs u (eval_rule snap (snap_now snap) (snap_mode_str snap) nowMs x u)"
        by (rule sound_eval_rule)
    qed
    then show ?thesis using False by (simp add: eval_module_def)
  qed
  have "gapped T nowMs ?s1
          (for_each (eval_module snap (snap_now snap) (snap_mode_str snap) nowMs) (modules (config s)) ?s1)"
    by (intro gapped_for_each em sound_eval_module)
  moreover have "config ?s1 = config s" and "lastFiredAtMs ?s1 = lastFiredAtMs s"
    by (simp_all add: observe_clock_def)
  ultimately have "gapped T nowMs ?s1 (e, s', out)" using tb by (simp add: tick_body_def Let_def)
  then show ?thesis using \<open>lastFiredAtMs ?s1 = lastFiredAtMs s\<close> by (simp add: gapped_def)
qed

lemma stamps_of_append [simp]: "stamps_of k (xs @ ys) = stamps_of k xs @ stamps_of k ys"
  by (simp add: stamps_of_def)

lemma stamps_of_tick:
  "distinct (map tip_key out) \<Longrightarrow>
   stamps_of k (map (Pair nowMs) out) = (if k \<in> set (map tip_key out) then [nowMs] else [])"
proof (induction out)
  case Nil
  show ?case by (simp add: stamps_of_def)
next
  case (Cons p out)
  have "stamps_of k (map (Pair nowMs) (p # out))
          = (if tip_key p = k then [nowMs] else []) @ stamps_of k (map (Pair nowMs) out)"
    by (simp add: stamps_of_def)
  then show ?case using Cons by auto
qed

lemma stamped_run_spaced:
  assumes "0 < T" and "all_throttled T (config s)"
      and "\<forall>cfg. Reload cfg \<in> set evs \<longrightarrow> all_throttled T cfg"
  shows "spaced T (prev_of (lastFiredAtMs s k)) (stamps_of k (stamped_run s evs))"
  using assms(2,3)
proof (induction evs arbitrary: s)
  case Nil
  show ?case by (simp add: stamps_of_def)
next
  case (Cons ev evs)
  show ?case
  proof (cases ev)
    case (Reload cfg)
    have "all_throttled T (config (reload cfg s))" using Cons.prems(2) Reload by (simp add: reload_def)
    from Cons.IH[OF this] show ?thesis using Cons.prems(2) Reload by (simp add: reload_def)
  next
    case (Tick snapshot nowMs)
    show ?thesis
    proof (cases snapshot)
      case None
      then show ?thesis using Cons Tick by (simp add: tick_def)
    next
      case (Some snap)
      obtain s1 out1 where t: "tick s (Some snap) nowMs = (s1, out1)"
        by (cases "tick s (Some snap) nowMs") auto
      note te = tick_effect[OF t]
      have "all_throttled T (config s1)" using te(2) Cons.prems(1) by simp
      then have ih: "spaced T (prev_of (lastFiredAtMs s1 k)) (stamps_of k (stamped_run s1 evs))"
        using Cons.IH Cons.prems(2) by simp
      note g = gapped_tick[OF assms(1) Cons.prems(1) t]
      show ?thesis
      proof (cases "k \<in> set (map tip_key out1)")
        case True
        then obtain p where p: "p \<in> set out1" "tip_key p = k" by auto
        have "T \<le> nowMs - prev_of (lastFiredAtMs s k)" and "lastFiredAtMs s1 k = Some nowMs"
          using g p by auto
        then show ?thesis using ih True t Tick Some te(4)
          by (simp add: stamps_of_tick prev_of_def)
      next
        case False
        then have "lastFiredAtMs s1 k = lastFiredAtMs s k" using te(6)[of k] by auto
        then show ?thesis using ih False t Tick Some te(4) by (simp add: stamps_of_tick)
      qed
    qed
  qed
qed

lemma spaced_first: "0 < T \<Longrightarrow> spaced T prev ts \<Longrightarrow> t \<in> set ts \<Longrightarrow> T \<le> t - prev"
proof (induction ts arbitrary: prev)
  case Nil
  then show ?case by simp
next
  case (Cons a ts)
  show ?case
  proof (cases "t = a")
    case True
    then show ?thesis using Cons.prems by simp
  next
    case False
    then have "T \<le> t - a" using Cons by auto
    then show ?thesis using Cons.prems by auto
  qed
qed

lemma spaced_pairs:
  "0 < T \<Longrightarrow> spaced T prev ts \<Longrightarrow> i < j \<Longrightarrow> j < length ts \<Longrightarrow> T \<le> ts ! j - ts ! i"
proof (induction ts arbitrary: prev i j)
  case Nil
  then show ?case by simp
next
  case (Cons a ts)
  show ?case
  proof (cases i)
    case 0
    then obtain j' where j: "j = Suc j'" using Cons.prems(3) by (cases j) auto
    have "ts ! j' \<in> set ts" using Cons.prems(4) j by simp
    then have "T \<le> ts ! j' - a"
      using spaced_first[OF Cons.prems(1), of a ts "ts ! j'"] Cons.prems(2) by simp
    then show ?thesis using 0 j by simp
  next
    case (Suc i')
    then obtain j' where j: "j = Suc j'" using Cons.prems(3) by (cases j) auto
    have "T \<le> ts ! j' - ts ! i'"
      using Cons.IH[of a i' j'] Cons.prems Suc j by simp
    then show ?thesis using Suc j by simp
  qed
qed

lemma same_key_positions:
  assumes "i < j" and "j < length outs"
      and "tip_key (snd (outs ! i)) = k" and "tip_key (snd (outs ! j)) = k"
  shows "\<exists>i' j'. i' < j' \<and> j' < length (stamps_of k outs)
           \<and> stamps_of k outs ! i' = fst (outs ! i) \<and> stamps_of k outs ! j' = fst (outs ! j)"
  using assms
proof (induction outs arbitrary: i j)
  case Nil
  then show ?case by simp
next
  case (Cons x outs)
  obtain j0 where j: "j = Suc j0" using Cons.prems(1) by (cases j) auto
  show ?case
  proof (cases i)
    case 0
    have kx: "tip_key (snd x) = k" using Cons.prems(3) 0 by simp
    have mem: "outs ! j0 \<in> set (filter (\<lambda>(t, p). tip_key p = k) outs)"
      using Cons.prems(2,4) j by (auto simp: case_prod_beta)
    then obtain n where n: "n < length (filter (\<lambda>(t, p). tip_key p = k) outs)"
      and nth: "filter (\<lambda>(t, p). tip_key p = k) outs ! n = outs ! j0"
      by (meson in_set_conv_nth)
    have st: "stamps_of k (x # outs) = fst x # stamps_of k outs"
      using kx by (simp add: stamps_of_def case_prod_beta)
    have "stamps_of k outs ! n = fst (outs ! j0)" using n nth by (simp add: stamps_of_def)
    then show ?thesis
      using st n 0 j by (intro exI[of _ 0] exI[of _ "Suc n"]) (simp add: stamps_of_def)
  next
    case (Suc i0)
    have "\<exists>i' j'. i' < j' \<and> j' < length (stamps_of k outs)
           \<and> stamps_of k outs ! i' = fst (outs ! i0) \<and> stamps_of k outs ! j' = fst (outs ! j0)"
      using Cons.IH[of i0 j0] Cons.prems Suc j by simp
    then obtain i' j' where ij: "i' < j'" "j' < length (stamps_of k outs)"
      "stamps_of k outs ! i' = fst (outs ! i0)" "stamps_of k outs ! j' = fst (outs ! j0)" by blast
    show ?thesis
    proof (cases "tip_key (snd x) = k")
      case True
      then have "stamps_of k (x # outs) = fst x # stamps_of k outs"
        by (simp add: stamps_of_def case_prod_beta)
      then show ?thesis using ij Suc j
        by (intro exI[of _ "Suc i'"] exI[of _ "Suc j'"]) simp
    next
      case False
      then have "stamps_of k (x # outs) = stamps_of k outs"
        by (simp add: stamps_of_def case_prod_beta)
      then show ?thesis using ij Suc j by (intro exI[of _ i'] exI[of _ j']) simp
    qed
  qed
qed

lemma stamped_run_gap:
  assumes "0 < T" and "all_throttled T (config s)"
      and "\<forall>cfg. Reload cfg \<in> set evs \<longrightarrow> all_throttled T cfg"
      and "i < j" and "j < length (stamped_run s evs)"
      and "tip_key (snd (stamped_run s evs ! i)) = tip_key (snd (stamped_run s evs ! j))"
  shows "T \<le> fst (stamped_run s evs ! j) - fst (stamped_run s evs ! i)"
proof -
  let ?k = "tip_key (snd (stamped_run s evs ! j))"
  obtain i' j' where ij: "i' < j'" "j' < length (stamps_of ?k (stamped_run s evs))"
      "stamps_of ?k (stamped_run s evs) ! i' = fst (stamped_run s evs ! i)"
      "stamps_of ?k (stamped_run s evs) ! j' = fst (stamped_run s evs ! j)"
    using same_key_positions[OF assms(4,5,6) refl] by blast
  have "spaced T (prev_of (lastFiredAtMs s ?k)) (stamps_of ?k (stamped_run s evs))"
    using stamped_run_spaced[OF assms(1,2,3)] .
  from spaced_pairs[OF assms(1) this ij(1,2)] show ?thesis using ij(3,4) by simp
qed

lemma stamped_run_tips: "map snd (stamped_run s evs) = snd (run s evs)"
proof (induction evs arbitrary: s)
  case Nil
  show ?case by simp
next
  case (Cons ev evs)
  show ?case
  proof (cases ev)
    case (Tick snapshot nowMs)
    then show ?thesis using Cons.IH by (simp add: comp_def split: prod.splits)
  next
    case (Reload cfg)
    then show ?thesis using Cons.IH by simp
  qed
qed

subsection \<open>Errors inside a tick\<close>

lemma for_each_abort:
  assumes "for_each body xs s = (None, s1, out1)" and "body x s1 = (Some e, s2, out2)"
  shows "for_each body (xs @ x # ys) s = (Some e, s2, out1 @ out2)"
  using assms
proof (induction xs arbitrary: s out1)
  case Nil
  then show ?case by simp
next
  case (Cons y xs)
  obtain e1 t1 o1 where b: "body y s = (e1, t1, o1)" by (cases "body y s") auto
  have eN: "e1 = None" using Cons.prems(1) b by (cases e1) auto
  obtain e2 t2 o2 where r: "for_each body xs t1 = (e2, t2, o2)"
    by (cases "for_each body xs t1") auto
  have res: "e2 = None" "t2 = s1" "out1 = o1 @ o2" using Cons.prems(1) b eN r by auto
  have "for_each body (xs @ x # ys) t1 = (Some e, s2, o2 @ out2)"
    using Cons.IH[of t1 o2] r res Cons.prems(2) by simp
  then show ?case using b eN res by simp
qed

lemma eval_rule_throws:
  "applicable rule snap \<Longrightarrow> rule_trigger rule = None
   \<Longrightarrow> eval_rule snap (snap_now snap) (snap_mode_str snap) nowMs rule s = (Some TypeError, s, [])"
  by (simp add: eval_rule_def applicable_def)

section \<open>Properties of the objective timer model\<close>

lemma last_kill_Cons:
  "last_kill name (ev # evs) =
     (case last_kill name evs of
        Some k \<Rightarrow> Some k
      | None \<Rightarrow> if EventName ev = name then Some ev else None)"
  by (auto simp: last_kill_def split: list.splits)

lemma scan_kills_last:
  "scan_kills events (d, h, b) =
     (case last_kill ''DragonKill'' events of None \<Rightarrow> d | Some ev \<Rightarrow> Some ev,
      case last_kill ''HeraldKill'' events of None \<Rightarrow> h | Some ev \<Rightarrow> Some ev,
      case last_kill ''BaronKill'' events of None \<Rightarrow> b | Some ev \<Rightarrow> Some ev)"
proof (induction events arbitrary: d h b)
  case Nil
  show ?case by (simp add: last_kill_def)
next
  case (Cons ev events)
  show ?case
    by (simp only: scan_kills.simps Cons.IH last_kill_Cons) (simp split: option.splits)
qed

lemma last_kill_None: "\<forall>ev \<in> set events. EventName ev \<noteq> name \<Longrightarrow> last_kill name events = None"
  by (simp add: last_kill_def filter_False)

lemma last_kill_mem: "last_kill name events = Some k \<Longrightarrow> k \<in> set events \<and> EventName k = name"
proof -
  assume a: "last_kill name events = Some k"
  then have ne: "filter (\<lambda>ev. EventName ev = name) events \<noteq> []"
    by (auto simp: last_kill_def split: list.splits)
  have "k = last (filter (\<lambda>ev. EventName ev = name) events)"
    using a by (auto simp: last_kill_def split: list.splits)
  then have "k \<in> set (filter (\<lambda>ev. EventName ev = name) events)"
    using ne last_in_set by blast
  then show ?thesis by simp
qed

lemma last_kill_alt:
  "last_kill name events =
     (if filter (\<lambda>ev. EventName ev = name) events = [] then None
      else Some (last (filter (\<lambda>ev. EventName ev = name) events)))"
  by (simp add: last_kill_def split: list.splits)

lemma last_kill_append:
  "EventName kill = name \<Longrightarrow> \<forall>ev \<in> set later. EventName ev \<noteq> name
   \<Longrightarrow> last_kill name (events @ kill # later) = Some kill"
  by (simp add: last_kill_alt filter_False)

lemma timers_of_log:
  "computeObjectiveTimers t events =
     \<lparr>dragon =
        \<lparr>d_nextSpawnTime = nextDragonAt t (last_kill ''DragonKill'' events),
         d_timeToSpawn = secondsToClock (nextDragonAt t (last_kill ''DragonKill'' events) - t),
         d_lastKillType =
           (case last_kill ''DragonKill'' events of
              None \<Rightarrow> None
            | Some ev \<Rightarrow>
                (case DragonType ev of None \<Rightarrow> None | Some ty \<Rightarrow> if ty = [] then None else Some ty))\<rparr>,
      herald =
        \<lparr>h_nextSpawnTime = nextHeraldAt t (last_kill ''HeraldKill'' events),
         h_timeToSpawn = secondsToClock (nextHeraldAt t (last_kill ''HeraldKill'' events) - t),
         h_despawnsAt = BARON_FIRST_SPAWN,
         h_despawnsIn = secondsToClock (BARON_FIRST_SPAWN - t)\<rparr>,
      baron =
        \<lparr>b_nextSpawnTime = nextBaronAt t (last_kill ''BaronKill'' events),
         b_timeToSpawn = secondsToClock (nextBaronAt t (last_kill ''BaronKill'' events) - t)\<rparr>\<rparr>"
  by (simp add: computeObjectiveTimers_def scan_kills_last split: option.splits)

section \<open>Properties of the aggregation\<close>

lemma getSnapshot_match:
  "getSnapshot (match_upstream t events) =
     Some \<lparr>snap_time = Some t, snap_mode = Some ''CLASSIC'',
           snap_dragon_next = Some (nextDragonAt t (last_kill ''DragonKill'' events)),
           snap_herald_next = Some (nextHeraldAt t (last_kill ''HeraldKill'' events)),
           snap_baron_next = Some (nextBaronAt t (last_kill ''BaronKill'' events))\<rparr>"
  by (simp add: getSnapshot_def getAggregatedSnapshot_def match_upstream_def snapshot_like_def
                timers_of_log Let_def)

lemma objectives_match:
  "getAggregatedSnapshot (match_upstream t events) = Inr snap
   \<Longrightarrow> objectives snap = computeObjectiveTimers t events \<and> game_time snap = t \<and> \<not> error snap"
  by (auto simp: getAggregatedSnapshot_def match_upstream_def Let_def)

lemma match_succeeds: "\<exists>snap. getAggregatedSnapshot (match_upstream t events) = Inr snap"
  by (simp add: getAggregatedSnapshot_def match_upstream_def Let_def)

text \<open>Unfolding a tick of the example rule set on a concrete snapshot.\<close>

lemmas dragon_tick_simps =
  tick_def tick_body_def observe_clock_def new_engine_def objectives_config_def Let_def
  snap_now_def snap_mode_str_def eval_module_def eval_rule_def dragon_prep_30_def dragon_channel_def
  inPhase_def modeAllowed_def getLeadList_def objective_lead_def withinWindow_def fire_def
  throttleMs_def objective_key_def objective_payload_def overlay_channel_def chan_str_def str_or_def
  String_of_number_def Math_round_def show_nat.simps digit_char_def

subsection \<open>Equipment slots\<close>

lemma place_item_length [simp]: "length (place_item acc item) = length acc"
  by (simp add: place_item_def Let_def)

lemma foldl_place_item_length [simp]: "length (foldl place_item acc xs) = length acc"
  by (induction xs arbitrary: acc) simp_all

lemma whole_slot: "0 \<le> n \<Longrightarrow> of_int \<lfloor>n\<rfloor> = (n :: rat) \<Longrightarrow> (nat \<lfloor>n\<rfloor> = i) = (n = of_nat i)"
proof
  assume a: "0 \<le> n" "of_int \<lfloor>n\<rfloor> = n" "nat \<lfloor>n\<rfloor> = i"
  have "0 \<le> \<lfloor>n\<rfloor>" using a(1) by simp
  then have "of_nat (nat \<lfloor>n\<rfloor>) = (of_int \<lfloor>n\<rfloor> :: rat)" by simp
  then show "n = of_nat i" using a(2,3) by simp
next
  assume "n = of_nat i"
  then show "nat \<lfloor>n\<rfloor> = i" by simp
qed

lemma place_item_nth:
  assumes "i < length acc"
  shows "place_item acc item ! i = (if lands_at i item then item_displayName item else acc ! i)"
proof (cases "item_slot item")
  case (OtherSlot k)
  then show ?thesis by (simp add: place_item_def lands_at_def)
next
  case (NumberSlot n)
  show ?thesis
  proof (cases "0 \<le> n \<and> n \<le> 6 \<and> opt_str (item_displayName item) \<noteq> []")
    case False
    then have "\<not> lands_at i item" using NumberSlot by (auto simp: lands_at_def)
    then show ?thesis using False NumberSlot by (auto simp: place_item_def)
  next
    case True
    show ?thesis
    proof (cases "of_int \<lfloor>n\<rfloor> = n")
      case False
      have "n \<noteq> of_nat i"
      proof
        assume "n = of_nat i"
        then have "of_int \<lfloor>n\<rfloor> = n" by simp
        then show False using False by simp
      qed
      then have "\<not> lands_at i item" using NumberSlot by (simp add: lands_at_def)
      then show ?thesis using True False NumberSlot by (simp add: place_item_def)
    next
      case whole: True
      have eq: "(nat \<lfloor>n\<rfloor> = i) = (n = of_nat i)" using whole_slot True whole by blast
      have le: "n = of_nat i \<Longrightarrow> i \<le> 6" using True by simp
      have "lands_at i item = (n = of_nat i)" using True NumberSlot le by (auto simp: lands_at_def)
      then show ?thesis using True whole NumberSlot eq assms
        by (simp add: place_item_def nth_list_update)
    qed
  qed
qed

lemma foldl_place_item_nth:
  "i < length acc \<Longrightarrow>
   foldl place_item acc xs ! i =
     (if filter (lands_at i) xs = [] then acc ! i
      else item_displayName (last (filter (lands_at i) xs)))"
proof (induction xs arbitrary: acc)
  case Nil
  then show ?case by simp
next
  case (Cons x xs)
  have "i < length (place_item acc x)" using Cons.prems by simp
  from Cons.IH[OF this] show ?case using Cons.prems by (simp add: place_item_nth)
qed

lemma array_sort_set [simp]: "set (array_sort order xs) = set xs"
  by (auto simp: array_sort_def dest: mset_eq_setD)

lemma items_by_slot_sorted_nth:
  "i < 7 \<Longrightarrow>
   items_by_slot order xs ! i =
     (if filter (lands_at i) (array_sort order xs) = [] then None
      else item_displayName (last (filter (lands_at i) (array_sort order xs))))"
  by (simp add: items_by_slot_def foldl_place_item_nth)

lemma lands_at_key: "lands_at i item \<Longrightarrow> cmp_num item = of_nat i"
  by (auto simp: lands_at_def cmp_num_def cmp_key_def)

lemma filter_lands_at_sorted:
  "filter (lands_at i) (sort_key cmp_num xs) = filter (lands_at i) xs"
proof -
  have eq: "filter (lands_at i) ys = filter (lands_at i) (filter (\<lambda>y. cmp_num y = of_nat i) ys)" for ys
    by (auto simp: lands_at_key intro: filter_cong)
  have "filter (lands_at i) (sort_key cmp_num xs)
          = filter (lands_at i) (filter (\<lambda>y. cmp_num y = of_nat i) (sort_key cmp_num xs))"
    by (rule eq)
  also have "\<dots> = filter (lands_at i) (filter (\<lambda>y. cmp_num y = of_nat i) xs)"
    by (simp only: sort_key_stable)
  also have "\<dots> = filter (lands_at i) xs" by (rule eq[symmetric])
  finally show ?thesis .
qed

lemma items_by_slot_nth:
  "comparable xs \<Longrightarrow> i < 7 \<Longrightarrow>
   items_by_slot order xs ! i =
     (if filter (lands_at i) xs = [] then None
      else item_displayName (last (filter (lands_at i) xs)))"
  by (simp add: items_by_slot_sorted_nth array_sort_def filter_lands_at_sorted)

lemma items_by_slot_some_entry:
  assumes "i < 7" and "\<exists>it \<in> set xs. lands_at i it"
  shows "\<exists>it \<in> set xs. lands_at i it \<and> items_by_slot order xs ! i = item_displayName it"
proof -
  let ?f = "filter (lands_at i) (array_sort order xs)"
  have ne: "?f \<noteq> []" using assms(2) by (auto simp: filter_empty_conv)
  then have "last ?f \<in> set ?f" by (rule last_in_set)
  then have "last ?f \<in> set xs \<and> lands_at i (last ?f)" by simp
  moreover have "items_by_slot order xs ! i = item_displayName (last ?f)"
    using ne assms(1) by (simp add: items_by_slot_sorted_nth)
  ultimately show ?thesis by blast
qed

lemma items_by_slot_none:
  assumes "i < 7" and "\<forall>it \<in> set xs. \<not> lands_at i it"
  shows "items_by_slot order xs ! i = None"
proof -
  have "filter (lands_at i) (array_sort order xs) = []"
    using assms(2) by (auto simp: filter_empty_conv)
  then show ?thesis using assms(1) by (simp add: items_by_slot_sorted_nth)
qed

subsection \<open>Identity-keyed endpoints\<close>

lemma fetch_all_fail:
  "\<forall>c \<in> set cs. endpoint c = None \<Longrightarrow> fetchWithRiotIdFallback endpoint cs = (None, None)"
  by (induction cs) simp_all

lemma items_by_slot_Nil: "items_by_slot order [] = replicate 7 None"
  by (simp add: items_by_slot_def array_sort_def comparable_def)

section \<open>Results\<close>

subsection \<open>At-most-once firing\<close>

text \<open>
  C1. Over any sequence of ticks and rule reloads in which the observed game clock never
  decreases (starting at or above the engine's clock baseline), no two tips emitted carry
  the same rule id, lead and occurrence (wave index, or objective with rounded next-spawn
  time), hence no two carry the same fired key, and none repeats a key already recorded
  at the start. Moreover, if some tick of the sequence completes without an error and
  meets an enabled, applicable rule inside the window of key \<open>k\<close> (not yet recorded at
  the start, and not held back by the throttle), then exactly one tip with key \<open>k\<close> is
  emitted over the whole sequence.
\<close>

theorem at_most_once_firing:
  assumes "sorted (lastNow s # clocks evs)"
  shows "distinct (map tip_occurrence (snd (run s evs)))
       \<and> distinct (map tip_key (snd (run s evs)))
       \<and> set (map tip_key (snd (run s evs))) \<inter> fired s = {}
       \<and> (\<forall>evs1 snap nowMs evs2 m rule k.
            evs = evs1 @ Tick (Some snap) nowMs # evs2
            \<and> fst (tick_body (fst (run s evs1)) snap nowMs) = None
            \<and> m \<in> set (modules (config (fst (run s evs1)))) \<and> mod_enabled m \<noteq> Some False
            \<and> rule \<in> set (mod_rules m) \<and> applicable rule snap \<and> due rule snap k
            \<and> \<not> throttled rule nowMs (lastFiredAtMs (fst (run s evs1)) k)
            \<and> k \<notin> fired s
            \<longrightarrow> length (filter (\<lambda>p. tip_key p = k) (snd (run s evs))) = 1)"
proof -
  have a: "distinct (map tip_key (snd (run s evs)))"
    and b: "set (map tip_key (snd (run s evs))) \<inter> fired s = {}"
    using run_monotone_clock[OF assms, of "fst (run s evs)" "snd (run s evs)"] by simp_all
  have c: "distinct (map tip_occurrence (snd (run s evs)))"
    using distinct_occurrences[OF a] .
  show ?thesis using a b c run_fires_due[OF assms] by blast
qed

theorem at_most_once_firing_witness:
  "sorted (lastNow (new_engine objectives_config) # clocks crossing)
   \<and> due dragon_prep_30 (quiet_snapshot 270) ''dragon_prep_30:dragon:30:300''
   \<and> distinct (map tip_occurrence (snd (run (new_engine objectives_config) crossing)))
   \<and> length (filter (\<lambda>p. tip_key p = ''dragon_prep_30:dragon:30:300'')
                (snd (run (new_engine objectives_config) crossing))) = 1"
proof -
  let ?s = "new_engine objectives_config"
  let ?k = "''dragon_prep_30:dragon:30:300''"
  let ?evs1 = "[Tick (Some (quiet_snapshot 269)) 1700000000000]"
  let ?evs2 = "[Tick (Some (quiet_snapshot 271)) 1700000002000,
                Tick (Some (quiet_snapshot 285)) 1700000003000]"
  let ?m = "\<lparr>mod_id = ''objectives'', mod_rules = [dragon_prep_30], mod_enabled = None\<rparr>"
  have h: "sorted (lastNow ?s # clocks crossing)" by code_simp
  have split: "crossing = ?evs1 @ Tick (Some (quiet_snapshot 270)) 1700000001000 # ?evs2"
    by (simp add: crossing_def)
  have ok: "fst (tick_body (fst (run ?s ?evs1)) (quiet_snapshot 270) 1700000001000) = None"
    by code_simp
  have m: "?m \<in> set (modules (config (fst (run ?s ?evs1))))" by code_simp
  have en: "mod_enabled ?m \<noteq> Some False" by simp
  have r: "dragon_prep_30 \<in> set (mod_rules ?m)" by simp
  have ap: "applicable dragon_prep_30 (quiet_snapshot 270)" by code_simp
  have du: "due dragon_prep_30 (quiet_snapshot 270) ?k" by code_simp
  have th: "\<not> throttled dragon_prep_30 1700000001000 (lastFiredAtMs (fst (run ?s ?evs1)) ?k)"
    by (simp add: throttled_def throttleMs_def dragon_prep_30_def)
  have fr: "?k \<notin> fired ?s" by (simp add: new_engine_def)
  from at_most_once_firing[OF h]
  have d: "distinct (map tip_occurrence (snd (run ?s crossing)))"
    and one: "length (filter (\<lambda>p. tip_key p = ?k) (snd (run ?s crossing))) = 1"
    using split ok m en r ap du th fr by blast+
  show ?thesis using h du d one by simp
qed

subsection \<open>Identity resolution\<close>

text \<open>
  C2 (the roster loop does not keep the precedence). The loop tests every kind of match
  on each roster entry in turn, and the weaker kinds assign only while nothing is
  selected; so among the matches that are not full-id matches the first roster entry
  wins, whatever its kind. With a name-only match placed before a name+tag match, the
  name-only match is selected; with a legacy-name match placed before a name-only match,
  the legacy match is selected, where the sibling selection of \<open>getRawDump\<close> takes the
  name-only match.
\<close>

theorem identity_resolution_roster_order:
  "normalizeIdString (riotIdGameName name_tag_entry) = normalizeIdString (Some ''Foo'')
   \<and> normalizeIdString (riotIdTagLine name_tag_entry) = normalizeIdString (Some ''EUW'')
   \<and> normalizeIdString (riotIdTagLine name_only_entry) \<noteq> normalizeIdString (Some ''EUW'')
   \<and> resolve_me (ActiveObject None (Some ''Foo'') (Some ''EUW''))
        [name_only_entry, name_tag_entry, legacy_entry] = Some name_only_entry
   \<and> resolve_me (ActiveObject None (Some ''Foo'') (Some ''EUW''))
        [name_tag_entry, name_only_entry, legacy_entry] = Some name_tag_entry
   \<and> resolve_me (ActiveString ''Foo'') [legacy_first, name_second] = Some legacy_first
   \<and> rawdump_me (ActiveString ''Foo'') [legacy_first, name_second] = Some name_second"
  by code_simp

subsection \<open>Errors while evaluating a rule\<close>

text \<open>
  C3 (as the code has it). The tick has one \<open>try\<close>/\<open>catch\<close> around all of its work. When
  an applicable rule without a trigger is reached, its evaluation throws; the tick then
  ends there: the modules and rules evaluated before it keep their effects and their
  tips, the rules after it in that module and all later modules are not evaluated in
  this tick, and the error is swallowed.
\<close>

theorem rule_error_ends_tick:
  assumes "modules (config s) = ms1 @ m # ms2"
      and "mod_enabled m \<noteq> Some False"
      and "mod_rules m = rs1 @ bad # rs2"
      and "applicable bad snap" and "rule_trigger bad = None"
      and "for_each (eval_module snap (snap_now snap) (snap_mode_str snap) nowMs) ms1
             (observe_clock s (snap_now snap)) = (None, s1, out1)"
      and "for_each (eval_rule snap (snap_now snap) (snap_mode_str snap) nowMs) rs1 s1
             = (None, s2, out2)"
  shows "tick_body s snap nowMs = (Some TypeError, s2, out1 @ out2)
       \<and> tick s (Some snap) nowMs = (s2, out1 @ out2)"
proof -
  let ?er = "eval_rule snap (snap_now snap) (snap_mode_str snap) nowMs"
  let ?em = "eval_module snap (snap_now snap) (snap_mode_str snap) nowMs"
  have "?er bad s2 = (Some TypeError, s2, [])"
    using eval_rule_throws[OF assms(4,5)] .
  from for_each_abort[OF assms(7) this, of rs2]
  have "?em m s1 = (Some TypeError, s2, out2)"
    using assms(2,3) by (simp add: eval_module_def)
  from for_each_abort[OF assms(6) this, of ms2]
  have "for_each ?em (modules (config s)) (observe_clock s (snap_now snap))
          = (Some TypeError, s2, out1 @ out2)"
    using assms(1) by simp
  moreover have "config (observe_clock s (snap_now snap)) = config s"
    by (simp add: observe_clock_def)
  ultimately have tb: "tick_body s snap nowMs = (Some TypeError, s2, out1 @ out2)"
    by (simp add: tick_body_def Let_def)
  then show ?thesis by (simp add: tick_def)
qed

theorem rule_error_ends_tick_witness:
  "applicable broken_rule (quiet_snapshot 270) \<and> rule_trigger broken_rule = None
   \<and> map tip_id (snd (tick (new_engine broken_config) (Some (quiet_snapshot 270)) 1700000000000))
       = [''cannon'']"
proof -
  let ?s = "new_engine broken_config"
  let ?snap = "quiet_snapshot 270"
  let ?m = "\<lparr>mod_id = ''tips'', mod_rules = [cannon_rule, broken_rule, dragon_prep_30],
             mod_enabled = None\<rparr>"
  let ?er = "eval_rule ?snap (snap_now ?snap) (snap_mode_str ?snap) 1700000000000"
  let ?s1 = "observe_clock ?s (snap_now ?snap)"
  have a1: "modules (config ?s) = [] @ ?m # []"
    by (simp add: new_engine_def broken_config_def)
  have a2: "mod_enabled ?m \<noteq> Some False" by simp
  have a3: "mod_rules ?m = [cannon_rule] @ broken_rule # [dragon_prep_30]" by simp
  have a4: "applicable broken_rule ?snap" by code_simp
  have a5: "rule_trigger broken_rule = None" by (simp add: broken_rule_def)
  have a6: "for_each (eval_module ?snap (snap_now ?snap) (snap_mode_str ?snap) 1700000000000) [] ?s1
              = (None, ?s1, [])" by simp
  have a7: "for_each ?er [cannon_rule] ?s1
              = (None, fst (snd (for_each ?er [cannon_rule] ?s1)), snd (snd (for_each ?er [cannon_rule] ?s1)))"
  proof -
    have "fst (for_each ?er [cannon_rule] ?s1) = None" by code_simp
    then show ?thesis by (metis prod.collapse)
  qed
  from rule_error_ends_tick[OF a1 a2 a3 a4 a5 a6 a7]
  have "snd (tick ?s (Some ?snap) 1700000000000) = [] @ snd (snd (for_each ?er [cannon_rule] ?s1))"
    by simp
  moreover have "map tip_id (snd (snd (for_each ?er [cannon_rule] ?s1))) = [''cannon'']"
    by code_simp
  ultimately show ?thesis using a4 a5 by simp
qed

text \<open>
  The claim as written fails: with the trigger-less rule between the cannon rule and the
  dragon rule, the tick at game time 270 emits the cannon tip only, although the dragon
  rule is applicable and inside its window; without the faulty rule both tips are
  emitted.
\<close>

theorem rule_error_isolation_counterexample:
  "applicable dragon_prep_30 (quiet_snapshot 270)
   \<and> due dragon_prep_30 (quiet_snapshot 270) ''dragon_prep_30:dragon:30:300''
   \<and> map tip_id (snd (tick (new_engine broken_config) (Some (quiet_snapshot 270)) 1700000000000))
       = [''cannon'']
   \<and> map tip_id (snd (tick (new_engine repaired_config) (Some (quiet_snapshot 270)) 1700000000000))
       = [''cannon'', ''dragon_prep_30'']"
  by code_simp

subsection \<open>Clock regression\<close>

text \<open>
  C4. A tick that obtains a snapshot makes the observed clock the new baseline. If the
  clock is strictly below the previous baseline, the fired set afterwards holds only the
  keys fired in this very tick: every key recorded before is unfired again, and a key
  that is inside its window at this tick (rule enabled and applicable, tick not ended by
  an error, throttle not holding it back) is emitted again although it had been
  recorded. Without a regression no recorded key is lost, and neither a tick without a
  snapshot nor a reload changes the fired set, so the regression is the only way back to
  unfired. The throttle timestamps are not touched by the reset: after the tick a
  timestamp is what it was, or the current wall-clock for a key emitted in this tick.
\<close>

theorem clock_regression_reset:
  assumes "tick s (Some snap) nowMs = (s', out)"
  shows "lastNow s' = snap_now snap
       \<and> (snap_now snap < lastNow s \<longrightarrow> fired s' = set (map tip_key out))
       \<and> (\<forall>m rule k.
             snap_now snap < lastNow s \<and> k \<in> fired s
             \<and> fst (tick_body s snap nowMs) = None
             \<and> m \<in> set (modules (config s)) \<and> mod_enabled m \<noteq> Some False
             \<and> rule \<in> set (mod_rules m) \<and> applicable rule snap \<and> due rule snap k
             \<and> \<not> throttled rule nowMs (lastFiredAtMs s k)
             \<longrightarrow> k \<in> set (map tip_key out))
       \<and> (\<not> snap_now snap < lastNow s \<longrightarrow> fired s \<subseteq> fired s')
       \<and> tick s None nowMs = (s, [])
       \<and> fired (reload cfg s) = fired s
       \<and> lastFiredAtMs (observe_clock s (snap_now snap)) = lastFiredAtMs s
       \<and> (\<forall>k. lastFiredAtMs s' k = lastFiredAtMs s k
               \<or> (k \<in> set (map tip_key out) \<and> lastFiredAtMs s' k = Some nowMs))
       \<and> dom (lastFiredAtMs s) \<subseteq> dom (lastFiredAtMs s')"
proof -
  note te = tick_effect[OF assms]
  have a: "lastNow s' = snap_now snap" using te(1) .
  have b: "snap_now snap < lastNow s \<longrightarrow> fired s' = set (map tip_key out)"
    using te(3) by simp
  have c: "k \<in> set (map tip_key out)"
    if "snap_now snap < lastNow s" and "fst (tick_body s snap nowMs) = None"
      and "m \<in> set (modules (config s))" and "mod_enabled m \<noteq> Some False"
      and "rule \<in> set (mod_rules m)" and "applicable rule snap" and "due rule snap k"
      and "\<not> throttled rule nowMs (lastFiredAtMs s k)" for m rule k
  proof -
    have "tick_body s snap nowMs = (None, s', out)"
      using assms that(2) by (auto simp: tick_def split: prod.splits)
    then have "k \<in> fired s'" using tick_body_hits that(3-8) by blast
    then show ?thesis using b that(1) by simp
  qed
  have d: "\<not> snap_now snap < lastNow s \<longrightarrow> fired s \<subseteq> fired s'" using te(3) by auto
  have e: "tick s None nowMs = (s, [])" by (simp add: tick_def)
  have f: "fired (reload cfg s) = fired s" by (simp add: reload_def)
  have g: "lastFiredAtMs (observe_clock s (snap_now snap)) = lastFiredAtMs s"
    by (simp add: observe_clock_def)
  have h: "\<forall>k. lastFiredAtMs s' k = lastFiredAtMs s k
               \<or> (k \<in> set (map tip_key out) \<and> lastFiredAtMs s' k = Some nowMs)"
    using te(6) by blast
  have i: "dom (lastFiredAtMs s) \<subseteq> dom (lastFiredAtMs s')"
  proof
    fix k assume "k \<in> dom (lastFiredAtMs s)"
    then show "k \<in> dom (lastFiredAtMs s')" using h by (metis domI domD)
  qed
  show ?thesis using a b c d e f g h i by blast
qed

theorem clock_regression_reset_witness:
  "snap_now (quiet_snapshot 270) < lastNow (fst (run (new_engine objectives_config) fire_then_advance))
   \<and> ''dragon_prep_30:dragon:30:300'' \<in> fired (fst (run (new_engine objectives_config) fire_then_advance))
   \<and> due dragon_prep_30 (quiet_snapshot 270) ''dragon_prep_30:dragon:30:300''
   \<and> ''dragon_prep_30:dragon:30:300''
       \<in> set (map tip_key (snd (tick (fst (run (new_engine objectives_config) fire_then_advance))
                                   (Some (quiet_snapshot 270)) 1700000002000)))
   \<and> fired (fst (tick (fst (run (new_engine objectives_config) fire_then_advance))
                    (Some (quiet_snapshot 270)) 1700000002000))
       = set (map tip_key (snd (tick (fst (run (new_engine objectives_config) fire_then_advance))
                                   (Some (quiet_snapshot 270)) 1700000002000)))"
proof -
  let ?s = "fst (run (new_engine objectives_config) fire_then_advance)"
  let ?snap = "quiet_snapshot 270"
  let ?k = "''dragon_prep_30:dragon:30:300''"
  let ?m = "\<lparr>mod_id = ''objectives'', mod_rules = [dragon_prep_30], mod_enabled = None\<rparr>"
  have t: "tick ?s (Some ?snap) 1700000002000
             = (fst (tick ?s (Some ?snap) 1700000002000), snd (tick ?s (Some ?snap) 1700000002000))"
    by simp
  have lt: "snap_now ?snap < lastNow ?s" by code_simp
  have kf: "?k \<in> fired ?s" by code_simp
  have ok: "fst (tick_body ?s ?snap 1700000002000) = None" by code_simp
  have m: "?m \<in> set (modules (config ?s))" by code_simp
  have en: "mod_enabled ?m \<noteq> Some False" by simp
  have r: "dragon_prep_30 \<in> set (mod_rules ?m)" by simp
  have ap: "applicable dragon_prep_30 ?snap" by code_simp
  have du: "due dragon_prep_30 ?snap ?k" by code_simp
  have th: "\<not> throttled dragon_prep_30 1700000002000 (lastFiredAtMs ?s ?k)"
    by (simp add: throttled_def throttleMs_def dragon_prep_30_def)
  from clock_regression_reset[OF t]
  have "fired (fst (tick ?s (Some ?snap) 1700000002000))
          = set (map tip_key (snd (tick ?s (Some ?snap) 1700000002000)))"
    and "?k \<in> set (map tip_key (snd (tick ?s (Some ?snap) 1700000002000)))"
    using lt kf ok m en r ap du th by blast+
  then show ?thesis using lt kf du by simp
qed

subsection \<open>End-to-end example\<close>

text \<open>
  C5 (as the code has it). In a match at game time 1185 whose event log has no dragon
  kill and no baron kill, the snapshot's dragon objective has next spawn time 300 (the
  first spawn, kept while no kill is recorded) and time-to-spawn \<open>-14:45\<close>; it is the
  baron objective that has next spawn time 1200 and time-to-spawn \<open>0:15\<close>. The rule
  \<open>dragon_prep_30\<close> (lead 30) emits nothing at game times 1170 and 1185. At game time 270
  it emits exactly one notification, titled \<open>Dragon in 30s\<close>, and a following tick at
  game time 285 emits no second one.
\<close>

theorem end_to_end_example:
  assumes "\<forall>ev \<in> set events. EventName ev \<noteq> ''DragonKill'' \<and> EventName ev \<noteq> ''BaronKill''"
  shows "(\<exists>snap. getAggregatedSnapshot (match_upstream 1185 events) = Inr snap
            \<and> \<not> error snap \<and> game_time snap = 1185
            \<and> d_nextSpawnTime (dragon (objectives snap)) = 300
            \<and> d_timeToSpawn (dragon (objectives snap)) = ''-14:45''
            \<and> b_nextSpawnTime (baron (objectives snap)) = 1200
            \<and> b_timeToSpawn (baron (objectives snap)) = ''0:15'')
       \<and> snd (run (new_engine objectives_config)
                [Tick (getSnapshot (match_upstream 1170 events)) ms1,
                 Tick (getSnapshot (match_upstream 1185 events)) ms2]) = []
       \<and> map tip_title (snd (tick (new_engine objectives_config)
                                (getSnapshot (match_upstream 270 events)) ms1))
           = [''Dragon in 30s'']
       \<and> map tip_title (snd (run (new_engine objectives_config)
                               [Tick (getSnapshot (match_upstream 270 events)) ms1,
                                Tick (getSnapshot (match_upstream 285 events)) ms2]))
           = [''Dragon in 30s'']"
proof -
  have nd: "last_kill ''DragonKill'' events = None" and nb: "last_kill ''BaronKill'' events = None"
    using assms by (simp_all add: last_kill_None)
  obtain snap where s: "getAggregatedSnapshot (match_upstream 1185 events) = Inr snap"
    using match_succeeds by blast
  note o = objectives_match[OF s]
  have a: "\<not> error snap \<and> game_time snap = 1185
            \<and> d_nextSpawnTime (dragon (objectives snap)) = 300
            \<and> d_timeToSpawn (dragon (objectives snap)) = ''-14:45''
            \<and> b_nextSpawnTime (baron (objectives snap)) = 1200
            \<and> b_timeToSpawn (baron (objectives snap)) = ''0:15''"
    using o nd nb
    by (simp add: timers_of_log nextDragonAt_def nextBaronAt_def DRAGON_FIRST_SPAWN_def
                  BARON_FIRST_SPAWN_def secondsToClock_def padStart2_def show_nat.simps
                  digit_char_def Let_def)
  have b: "snd (run (new_engine objectives_config)
                [Tick (getSnapshot (match_upstream 1170 events)) ms1,
                 Tick (getSnapshot (match_upstream 1185 events)) ms2]) = []"
    using nd by (simp add: getSnapshot_match nextDragonAt_def DRAGON_FIRST_SPAWN_def
                           dragon_tick_simps)
  have c: "map tip_title (snd (tick (new_engine objectives_config)
                                (getSnapshot (match_upstream 270 events)) ms1))
           = [''Dragon in 30s'']"
    using nd by (simp add: getSnapshot_match nextDragonAt_def DRAGON_FIRST_SPAWN_def
                           dragon_tick_simps)
  have d: "map tip_title (snd (run (new_engine objectives_config)
                               [Tick (getSnapshot (match_upstream 270 events)) ms1,
                                Tick (getSnapshot (match_upstream 285 events)) ms2]))
           = [''Dragon in 30s'']"
    using nd by (simp add: getSnapshot_match nextDragonAt_def DRAGON_FIRST_SPAWN_def
                           dragon_tick_simps)
  show ?thesis using s a b c d by blast
qed

theorem end_to_end_example_witness:
  "EventName (kill_at ''HeraldKill'' 700) = ''HeraldKill''
   \<and> map tip_title (snd (run (new_engine objectives_config)
        [Tick (getSnapshot (match_upstream 270 [kill_at ''HeraldKill'' 700])) 1700000000000,
         Tick (getSnapshot (match_upstream 285 [kill_at ''HeraldKill'' 700])) 1700000015000]))
       = [''Dragon in 30s'']
   \<and> snd (run (new_engine objectives_config)
        [Tick (getSnapshot (match_upstream 1170 [kill_at ''HeraldKill'' 700])) 1700000000000,
         Tick (getSnapshot (match_upstream 1185 [kill_at ''HeraldKill'' 700])) 1700000015000]) = []"
proof -
  have h: "\<forall>ev \<in> set [kill_at ''HeraldKill'' 700].
             EventName ev \<noteq> ''DragonKill'' \<and> EventName ev \<noteq> ''BaronKill''"
    by (simp add: kill_at_def)
  have n: "EventName (kill_at ''HeraldKill'' 700) = ''HeraldKill''" by (simp add: kill_at_def)
  from end_to_end_example[OF h, of 1700000000000 1700000015000]
  show ?thesis using n by blast
qed

text \<open>
  The claim as written fails: at game time 1185 with an empty event log the dragon's
  next spawn time is 300, not 1200, its time-to-spawn is \<open>-14:45\<close>, not \<open>0:15\<close>, and
  the rule emits nothing at game time 1170.
\<close>

theorem end_to_end_counterexample:
  "(case getAggregatedSnapshot (match_upstream 1185 []) of
      Inl e \<Rightarrow> False
    | Inr snap \<Rightarrow>
        d_nextSpawnTime (dragon (objectives snap)) = 300
        \<and> d_nextSpawnTime (dragon (objectives snap)) \<noteq> 1200
        \<and> d_timeToSpawn (dragon (objectives snap)) = ''-14:45''
        \<and> d_timeToSpawn (dragon (objectives snap)) \<noteq> ''0:15'')
   \<and> snd (tick (new_engine objectives_config) (getSnapshot (match_upstream 1170 [])) 1700000000000)
       = []"
  by code_simp

subsection \<open>Equipment slot invariant\<close>

text \<open>
  C6 (as the code has it). For any fetched item list, and whatever order the engine's
  sort leaves it in, the snapshot's items field has exactly 7 positions. A position \<open>i\<close>
  that no input entry names (slot the number \<open>i\<close>, display name present) holds the
  absence marker. A position that some entry names holds the display name of one of the
  entries naming it: of that entry when it is the only one, and of the last one in input
  order when no slot makes the sort comparator yield \<open>NaN\<close> (every slot a number, or
  missing). So an entry with a slot in 0..6 and a display name appears at its slot unless
  another entry names the same slot, and an entry whose slot is out of range or no number
  never appears.
\<close>

theorem equipment_slots:
  "length (items_by_slot order xs) = 7
   \<and> (\<forall>i < 7. (\<forall>it \<in> set xs. \<not> lands_at i it) \<longrightarrow> items_by_slot order xs ! i = None)
   \<and> (\<forall>i < 7. (\<exists>it \<in> set xs. lands_at i it)
         \<longrightarrow> (\<exists>it \<in> set xs. lands_at i it \<and> items_by_slot order xs ! i = item_displayName it))
   \<and> (\<forall>i < 7. \<forall>it \<in> set xs.
         lands_at i it \<and> (\<forall>other \<in> set xs. lands_at i other \<longrightarrow> other = it)
         \<longrightarrow> items_by_slot order xs ! i = item_displayName it)
   \<and> (comparable xs
         \<longrightarrow> (\<forall>i < 7. items_by_slot order xs ! i =
                (if filter (lands_at i) xs = [] then None
                 else item_displayName (last (filter (lands_at i) xs)))))
   \<and> (\<forall>i < 7. \<forall>name. items_by_slot order xs ! i = Some name
         \<longrightarrow> (\<exists>it \<in> set xs. lands_at i it \<and> item_displayName it = Some name))"
proof -
  have len: "length (items_by_slot order xs) = 7" by (simp add: items_by_slot_def)
  have empty: "\<forall>i < 7. (\<forall>it \<in> set xs. \<not> lands_at i it) \<longrightarrow> items_by_slot order xs ! i = None"
    using items_by_slot_none by blast
  have some: "\<forall>i < 7. (\<exists>it \<in> set xs. lands_at i it)
         \<longrightarrow> (\<exists>it \<in> set xs. lands_at i it \<and> items_by_slot order xs ! i = item_displayName it)"
    using items_by_slot_some_entry by blast
  have single: "items_by_slot order xs ! i = item_displayName it"
    if lt: "i < 7" and mem: "it \<in> set xs" and la: "lands_at i it"
      and uniq: "\<forall>other \<in> set xs. lands_at i other \<longrightarrow> other = it" for i it
  proof -
    have "\<exists>w \<in> set xs. lands_at i w \<and> items_by_slot order xs ! i = item_displayName w"
      using items_by_slot_some_entry[of i xs order] lt mem la by blast
    then show ?thesis using uniq by auto
  qed
  have last_wins: "\<forall>i < 7. items_by_slot order xs ! i =
                (if filter (lands_at i) xs = [] then None
                 else item_displayName (last (filter (lands_at i) xs)))" if "comparable xs"
    using that by (simp add: items_by_slot_nth)
  have origin: "\<exists>it \<in> set xs. lands_at i it \<and> item_displayName it = Some name"
    if "i < 7" and "items_by_slot order xs ! i = Some name" for i name
  proof (cases "\<exists>it \<in> set xs. lands_at i it")
    case True
    then show ?thesis using items_by_slot_some_entry[OF that(1) True, of order] that(2) by auto
  next
    case False
    then show ?thesis using items_by_slot_none[OF that(1), of xs order] that(2) by simp
  qed
  show ?thesis using len empty some single last_wins origin by blast
qed

theorem equipment_slots_witness:
  "comparable [mk_item ''Boots'' 1, mk_item ''Ward'' 6, mk_item ''Stray'' 9,
               \<lparr>item_displayName = Some ''NoSlot'', item_slot = OtherSlot (Some 0)\<rparr>,
               mk_item ''Sword'' 0]
   \<and> items_by_slot rev [mk_item ''Boots'' 1, mk_item ''Ward'' 6, mk_item ''Stray'' 9,
               \<lparr>item_displayName = Some ''NoSlot'', item_slot = OtherSlot (Some 0)\<rparr>,
               mk_item ''Sword'' 0]
       = [Some ''Sword'', Some ''Boots'', None, None, None, None, Some ''Ward'']
   \<and> items_by_slot rev [mk_item ''Boots'' 1, mk_item ''Ward'' 6, mk_item ''Stray'' 9,
               \<lparr>item_displayName = Some ''NoSlot'', item_slot = OtherSlot (Some 0)\<rparr>,
               mk_item ''Sword'' 0] ! 1 = Some ''Boots''
   \<and> \<not> comparable odd_items
   \<and> items_by_slot odd_order odd_items
       = [None, Some ''n5'', Some ''n4'', Some ''n2'', None, None, None]
   \<and> items_by_slot id odd_items
       = [None, Some ''n5'', Some ''n6'', Some ''n2'', None, None, None]
   \<and> items_by_slot odd_order odd_items ! 1 = Some ''n5''
   \<and> length (items_by_slot odd_order odd_items) = 7"
proof -
  let ?xs = "[mk_item ''Boots'' 1, mk_item ''Ward'' 6, mk_item ''Stray'' 9,
              \<lparr>item_displayName = Some ''NoSlot'', item_slot = OtherSlot (Some 0)\<rparr>,
              mk_item ''Sword'' 0]"
  note th = equipment_slots[of rev ?xs]
  note th2 = equipment_slots[of odd_order odd_items]
  have cmp: "comparable ?xs" by code_simp
  have l1: "lands_at 1 (mk_item ''Boots'' 1)" by (simp add: lands_at_def mk_item_def opt_str_def)
  have u1: "\<forall>other \<in> set ?xs. lands_at 1 other \<longrightarrow> other = mk_item ''Boots'' 1"
    by (simp add: lands_at_def mk_item_def)
  have m1: "mk_item ''Boots'' 1 \<in> set ?xs" by simp
  have one: "(1::nat) < 7" by simp
  have b: "items_by_slot rev ?xs ! 1 = item_displayName (mk_item ''Boots'' 1)"
    using th one m1 l1 u1 by blast
  have all: "items_by_slot rev ?xs = [Some ''Sword'', Some ''Boots'', None, None, None, None, Some ''Ward'']"
    by code_simp
  have nc: "\<not> comparable odd_items" by code_simp
  have o1: "items_by_slot odd_order odd_items
       = [None, Some ''n5'', Some ''n4'', Some ''n2'', None, None, None]" by code_simp
  have o2: "items_by_slot id odd_items
       = [None, Some ''n5'', Some ''n6'', Some ''n2'', None, None, None]" by code_simp
  have l5: "lands_at 1 (mk_item ''n5'' 1)" by (simp add: lands_at_def mk_item_def opt_str_def)
  have u5: "\<forall>other \<in> set odd_items. lands_at 1 other \<longrightarrow> other = mk_item ''n5'' 1"
    by (simp add: odd_items_def lands_at_def mk_item_def)
  have m5: "mk_item ''n5'' 1 \<in> set odd_items" by (simp add: odd_items_def)
  have c: "items_by_slot odd_order odd_items ! 1 = item_displayName (mk_item ''n5'' 1)"
    using th2 one m5 l5 u5 by blast
  have len: "length (items_by_slot odd_order odd_items) = 7" using th2 by blast
  show ?thesis using cmp all b nc o1 o2 c len by (simp add: mk_item_def)
qed

text \<open>
  The claim as written fails when two entries name the same slot: both have a slot in
  0..6 and a display name, but only the later one appears in the list (the comparator is
  consistent here, so the engine's order plays no part).
\<close>

theorem equipment_slots_counterexample:
  "items_by_slot id [mk_item ''Sword'' 2, mk_item ''Shield'' 2]
     = [None, None, Some ''Shield'', None, None, None, None]
   \<and> Some ''Sword'' \<notin> set (items_by_slot id [mk_item ''Sword'' 2, mk_item ''Shield'' 2])
   \<and> items_by_slot rev [mk_item ''Sword'' 2, mk_item ''Shield'' 2]
     = [None, None, Some ''Shield'', None, None, None, None]"
  by code_simp

subsection \<open>Objective timers\<close>

text \<open>
  C7 (as the code has it). For a fixed event log in which no kill of an objective is
  recorded before that objective's first spawn time, the next spawn time of the dragon,
  of the herald and of the baron is non-decreasing in the game time. Once the game time
  has reached the objective's first spawn time, the next spawn time is the time of the
  last recorded kill plus one cadence for the dragon (300) and the baron (360); for the
  herald it is that sum (cadence 360) capped at the despawn deadline 1200.
\<close>

theorem objective_timer_monotone:
  "((\<forall>ev \<in> set events.
        (EventName ev = ''DragonKill'' \<longrightarrow> DRAGON_FIRST_SPAWN \<le> EventTime ev)
      \<and> (EventName ev = ''HeraldKill'' \<longrightarrow> HERALD_FIRST_SPAWN \<le> EventTime ev)
      \<and> (EventName ev = ''BaronKill'' \<longrightarrow> BARON_FIRST_SPAWN \<le> EventTime ev))
     \<and> t1 \<le> t2
     \<longrightarrow> d_nextSpawnTime (dragon (computeObjectiveTimers t1 events))
           \<le> d_nextSpawnTime (dragon (computeObjectiveTimers t2 events))
       \<and> h_nextSpawnTime (herald (computeObjectiveTimers t1 events))
           \<le> h_nextSpawnTime (herald (computeObjectiveTimers t2 events))
       \<and> b_nextSpawnTime (baron (computeObjectiveTimers t1 events))
           \<le> b_nextSpawnTime (baron (computeObjectiveTimers t2 events)))
   \<and> (EventName kill = ''DragonKill'' \<and> (\<forall>ev \<in> set later. EventName ev \<noteq> ''DragonKill'')
       \<and> DRAGON_FIRST_SPAWN \<le> t
       \<longrightarrow> d_nextSpawnTime (dragon (computeObjectiveTimers t (earlier @ kill # later)))
             = EventTime kill + DRAGON_RESPAWN)
   \<and> (EventName kill = ''BaronKill'' \<and> (\<forall>ev \<in> set later. EventName ev \<noteq> ''BaronKill'')
       \<and> BARON_FIRST_SPAWN \<le> t
       \<longrightarrow> b_nextSpawnTime (baron (computeObjectiveTimers t (earlier @ kill # later)))
             = EventTime kill + BARON_RESPAWN)
   \<and> (EventName kill = ''HeraldKill'' \<and> (\<forall>ev \<in> set later. EventName ev \<noteq> ''HeraldKill'')
       \<and> HERALD_FIRST_SPAWN \<le> t
       \<longrightarrow> h_nextSpawnTime (herald (computeObjectiveTimers t (earlier @ kill # later)))
             = min BARON_FIRST_SPAWN (EventTime kill + HERALD_RESPAWN))"
proof -
  have mono:
    "d_nextSpawnTime (dragon (computeObjectiveTimers t1 events))
       \<le> d_nextSpawnTime (dragon (computeObjectiveTimers t2 events))
     \<and> h_nextSpawnTime (herald (computeObjectiveTimers t1 events))
       \<le> h_nextSpawnTime (herald (computeObjectiveTimers t2 events))
     \<and> b_nextSpawnTime (baron (computeObjectiveTimers t1 events))
       \<le> b_nextSpawnTime (baron (computeObjectiveTimers t2 events))"
    if h: "\<forall>ev \<in> set events.
        (EventName ev = ''DragonKill'' \<longrightarrow> DRAGON_FIRST_SPAWN \<le> EventTime ev)
      \<and> (EventName ev = ''HeraldKill'' \<longrightarrow> HERALD_FIRST_SPAWN \<le> EventTime ev)
      \<and> (EventName ev = ''BaronKill'' \<longrightarrow> BARON_FIRST_SPAWN \<le> EventTime ev)"
      and le: "t1 \<le> t2"
  proof -
    have d: "nextDragonAt t1 (last_kill ''DragonKill'' events)
               \<le> nextDragonAt t2 (last_kill ''DragonKill'' events)"
    proof (cases "last_kill ''DragonKill'' events")
      case None
      then show ?thesis by (simp add: nextDragonAt_def)
    next
      case (Some k)
      then have "DRAGON_FIRST_SPAWN \<le> EventTime k" using last_kill_mem[OF Some] h by blast
      then show ?thesis using Some le
        by (simp add: nextDragonAt_def DRAGON_FIRST_SPAWN_def DRAGON_RESPAWN_def)
    qed
    have hh: "nextHeraldAt t1 (last_kill ''HeraldKill'' events)
               \<le> nextHeraldAt t2 (last_kill ''HeraldKill'' events)"
    proof (cases "last_kill ''HeraldKill'' events")
      case None
      then show ?thesis
        by (simp add: nextHeraldAt_def HERALD_FIRST_SPAWN_def BARON_FIRST_SPAWN_def)
    next
      case (Some k)
      then have "HERALD_FIRST_SPAWN \<le> EventTime k" using last_kill_mem[OF Some] h by blast
      then show ?thesis using Some le
        by (simp add: nextHeraldAt_def HERALD_FIRST_SPAWN_def HERALD_RESPAWN_def
                      BARON_FIRST_SPAWN_def)
    qed
    have b: "nextBaronAt t1 (last_kill ''BaronKill'' events)
               \<le> nextBaronAt t2 (last_kill ''BaronKill'' events)"
    proof (cases "last_kill ''BaronKill'' events")
      case None
      then show ?thesis by (simp add: nextBaronAt_def)
    next
      case (Some k)
      then have "BARON_FIRST_SPAWN \<le> EventTime k" using last_kill_mem[OF Some] h by blast
      then show ?thesis using Some le
        by (simp add: nextBaronAt_def BARON_FIRST_SPAWN_def BARON_RESPAWN_def)
    qed
    show ?thesis using d hh b by (simp add: timers_of_log)
  qed
  have dk: "d_nextSpawnTime (dragon (computeObjectiveTimers t (earlier @ kill # later)))
             = EventTime kill + DRAGON_RESPAWN"
    if "EventName kill = ''DragonKill''" and "\<forall>ev \<in> set later. EventName ev \<noteq> ''DragonKill''"
      and "DRAGON_FIRST_SPAWN \<le> t"
    using that last_kill_append[of kill "''DragonKill''" later earlier]
    by (simp add: timers_of_log nextDragonAt_def)
  have bk: "b_nextSpawnTime (baron (computeObjectiveTimers t (earlier @ kill # later)))
             = EventTime kill + BARON_RESPAWN"
    if "EventName kill = ''BaronKill''" and "\<forall>ev \<in> set later. EventName ev \<noteq> ''BaronKill''"
      and "BARON_FIRST_SPAWN \<le> t"
    using that last_kill_append[of kill "''BaronKill''" later earlier]
    by (simp add: timers_of_log nextBaronAt_def)
  have hk: "h_nextSpawnTime (herald (computeObjectiveTimers t (earlier @ kill # later)))
             = min BARON_FIRST_SPAWN (EventTime kill + HERALD_RESPAWN)"
    if "EventName kill = ''HeraldKill''" and "\<forall>ev \<in> set later. EventName ev \<noteq> ''HeraldKill''"
      and "HERALD_FIRST_SPAWN \<le> t"
    using that last_kill_append[of kill "''HeraldKill''" later earlier]
    by (simp add: timers_of_log nextHeraldAt_def)
  show ?thesis using mono dk bk hk by blast
qed

theorem objective_timer_monotone_witness:
  "d_nextSpawnTime (dragon (computeObjectiveTimers 400 [kill_at ''DragonKill'' 350, kill_at ''HeraldKill'' 700]))
     \<le> d_nextSpawnTime (dragon (computeObjectiveTimers 900 [kill_at ''DragonKill'' 350, kill_at ''HeraldKill'' 700]))
   \<and> d_nextSpawnTime (dragon (computeObjectiveTimers 400 ([] @ kill_at ''DragonKill'' 350 # [kill_at ''HeraldKill'' 700])))
       = 650
   \<and> h_nextSpawnTime (herald (computeObjectiveTimers 900 ([kill_at ''DragonKill'' 350] @ kill_at ''HeraldKill'' 700 # [])))
       = 1060
   \<and> b_nextSpawnTime (baron (computeObjectiveTimers 1300 ([] @ kill_at ''BaronKill'' 1250 # [])))
       = 1610"
proof -
  let ?log = "[kill_at ''DragonKill'' 350, kill_at ''HeraldKill'' 700]"
  have h: "\<forall>ev \<in> set ?log.
        (EventName ev = ''DragonKill'' \<longrightarrow> DRAGON_FIRST_SPAWN \<le> EventTime ev)
      \<and> (EventName ev = ''HeraldKill'' \<longrightarrow> HERALD_FIRST_SPAWN \<le> EventTime ev)
      \<and> (EventName ev = ''BaronKill'' \<longrightarrow> BARON_FIRST_SPAWN \<le> EventTime ev)"
    by (simp add: kill_at_def DRAGON_FIRST_SPAWN_def HERALD_FIRST_SPAWN_def)
  have le: "(400::rat) \<le> 900" by simp
  have a: "d_nextSpawnTime (dragon (computeObjectiveTimers 400 ?log))
             \<le> d_nextSpawnTime (dragon (computeObjectiveTimers 900 ?log))"
    using objective_timer_monotone[of ?log 400 900] h le by blast
  have b: "d_nextSpawnTime (dragon (computeObjectiveTimers 400
              ([] @ kill_at ''DragonKill'' 350 # [kill_at ''HeraldKill'' 700])))
             = EventTime (kill_at ''DragonKill'' 350) + DRAGON_RESPAWN"
    using objective_timer_monotone[of _ _ _ "kill_at ''DragonKill'' 350" "[kill_at ''HeraldKill'' 700]" 400 "[]"]
    by (simp add: kill_at_def DRAGON_FIRST_SPAWN_def)
  have c: "h_nextSpawnTime (herald (computeObjectiveTimers 900
              ([kill_at ''DragonKill'' 350] @ kill_at ''HeraldKill'' 700 # [])))
             = min BARON_FIRST_SPAWN (EventTime (kill_at ''HeraldKill'' 700) + HERALD_RESPAWN)"
    using objective_timer_monotone[of _ _ _ "kill_at ''HeraldKill'' 700" "[]" 900 "[kill_at ''DragonKill'' 350]"]
    by (simp add: kill_at_def HERALD_FIRST_SPAWN_def)
  have d: "b_nextSpawnTime (baron (computeObjectiveTimers 1300 ([] @ kill_at ''BaronKill'' 1250 # [])))
             = EventTime (kill_at ''BaronKill'' 1250) + BARON_RESPAWN"
    using objective_timer_monotone[of _ _ _ "kill_at ''BaronKill'' 1250" "[]" 1300 "[]"]
    by (simp add: kill_at_def BARON_FIRST_SPAWN_def)
  show ?thesis using a b c d
    by (simp add: kill_at_def DRAGON_RESPAWN_def HERALD_RESPAWN_def BARON_RESPAWN_def
                  BARON_FIRST_SPAWN_def)
qed

text \<open>
  The claim as written fails for the herald. A herald kill recorded at 900 moves its next
  spawn time from 480 to the deadline 1200, which is neither one cadence (360) after the
  kill nor one cadence after the previous value. And a log with a herald kill recorded
  before the first spawn (at 100) makes the next spawn time fall from 480 to 460 when the
  game time passes 480.
\<close>

theorem objective_timer_counterexample:
  "h_nextSpawnTime (herald (computeObjectiveTimers 901 [])) = 480
   \<and> h_nextSpawnTime (herald (computeObjectiveTimers 901 [kill_at ''HeraldKill'' 900])) = 1200
   \<and> EventTime (kill_at ''HeraldKill'' 900) + HERALD_RESPAWN = 1260
   \<and> h_nextSpawnTime (herald (computeObjectiveTimers 479 [kill_at ''HeraldKill'' 100])) = 480
   \<and> h_nextSpawnTime (herald (computeObjectiveTimers 480 [kill_at ''HeraldKill'' 100])) = 460"
  by code_simp

subsection \<open>Throttle suppression\<close>

text \<open>
  C8. When a rule has a throttle interval (\<open>throttleSec\<close>, in milliseconds after
  flooring) and the wall-clock time since the last emission recorded for key \<open>k\<close> is
  below it, evaluating the rule emits no tip with key \<open>k\<close>, leaves the last-fired-at
  timestamp of \<open>k\<close> as it was and does not record \<open>k\<close> as fired; in particular so for
  \<open>throttleSec = 10\<close> and less than 10000 ms since the last emission. The same holds
  for a whole tick when every rule of the configuration is throttled for \<open>k\<close> in this way.
  Over a sequence of ticks and reloads in which every rule of every configuration has a
  throttle interval of at least \<open>T\<close> milliseconds, two tips with the same key are
  emitted at least \<open>T\<close> milliseconds of wall-clock apart: of two would-be firings of a
  key closer than that, only one is emitted.
\<close>

theorem throttle_suppression:
  "(throttled rule nowMs (lastFiredAtMs s k)
      \<and> eval_rule snap nowSec mode nowMs rule s = (e, s', out)
      \<longrightarrow> k \<notin> set (map tip_key out) \<and> lastFiredAtMs s' k = lastFiredAtMs s k
          \<and> (k \<in> fired s' \<longleftrightarrow> k \<in> fired s))
   \<and> (rule_notify rule = Some n \<and> throttleSec n = Some 10
      \<and> lastFiredAtMs s k = Some prev \<and> nowMs - prev < 10000
      \<and> eval_rule snap nowSec mode nowMs rule s = (e, s', out)
      \<longrightarrow> k \<notin> set (map tip_key out) \<and> lastFiredAtMs s' k = Some prev)
   \<and> ((\<forall>m \<in> set (modules (config s)). \<forall>r \<in> set (mod_rules m).
          throttled r nowMs (lastFiredAtMs s k))
      \<and> tick s (Some snap) nowMs = (sT, outT)
      \<longrightarrow> k \<notin> set (map tip_key outT) \<and> lastFiredAtMs sT k = lastFiredAtMs s k)
   \<and> (0 < T \<and> all_throttled T (config s0)
      \<and> (\<forall>cfg. Reload cfg \<in> set evs \<longrightarrow> all_throttled T cfg)
      \<and> i < j \<and> j < length (stamped_run s0 evs)
      \<and> tip_key (snd (stamped_run s0 evs ! i)) = tip_key (snd (stamped_run s0 evs ! j))
      \<longrightarrow> T \<le> fst (stamped_run s0 evs ! j) - fst (stamped_run s0 evs ! i))"
proof -
  have a: "k \<notin> set (map tip_key out) \<and> lastFiredAtMs s' k = lastFiredAtMs s k
          \<and> (k \<in> fired s' \<longleftrightarrow> k \<in> fired s)"
    if th: "throttled rule nowMs (lastFiredAtMs s k)"
      and ev: "eval_rule snap nowSec mode nowMs rule s = (e, s', out)"
  proof -
    have q: "quiet_for k (lastFiredAtMs s k) (e, s', out)"
      using eval_rule_quiet[OF th refl, of snap nowSec mode] ev by simp
    have "sound_step nowMs s (e, s', out)"
      using sound_eval_rule[of nowMs s snap nowSec mode rule] ev by simp
    then have "fired s' = fired s \<union> set (map tip_key out)" by (simp add: sound_step_def)
    then show ?thesis using q by (auto simp: quiet_for_def)
  qed
  have b: "throttled rule nowMs (lastFiredAtMs s k)"
    if "rule_notify rule = Some n" and "throttleSec n = Some 10"
      and "lastFiredAtMs s k = Some prev" and "nowMs - prev < 10000"
    using that by (simp add: throttled_def throttleMs_def)
  have c: "k \<notin> set (map tip_key outT) \<and> lastFiredAtMs sT k = lastFiredAtMs s k"
    if all: "\<forall>m \<in> set (modules (config s)). \<forall>r \<in> set (mod_rules m).
               throttled r nowMs (lastFiredAtMs s k)"
      and t: "tick s (Some snap) nowMs = (sT, outT)"
  proof -
    obtain eT where tb: "tick_body s snap nowMs = (eT, sT, outT)"
      using t by (auto simp: tick_def split: prod.splits)
    have "quiet_for k (lastFiredAtMs s k) (tick_body s snap nowMs)"
      by (rule tick_body_quiet) (use all in auto)
    then show ?thesis using tb by (simp add: quiet_for_def)
  qed
  have d: "T \<le> fst (stamped_run s0 evs ! j) - fst (stamped_run s0 evs ! i)"
    if "0 < T" and "all_throttled T (config s0)"
      and "\<forall>cfg. Reload cfg \<in> set evs \<longrightarrow> all_throttled T cfg"
      and "i < j" and "j < length (stamped_run s0 evs)"
      and "tip_key (snd (stamped_run s0 evs ! i)) = tip_key (snd (stamped_run s0 evs ! j))"
    using stamped_run_gap[OF that] .
  have abc: "(throttled rule nowMs (lastFiredAtMs s k)
      \<and> eval_rule snap nowSec mode nowMs rule s = (e, s', out)
      \<longrightarrow> k \<notin> set (map tip_key out) \<and> lastFiredAtMs s' k = lastFiredAtMs s k
          \<and> (k \<in> fired s' \<longleftrightarrow> k \<in> fired s))
   \<and> (rule_notify rule = Some n \<and> throttleSec n = Some 10
      \<and> lastFiredAtMs s k = Some prev \<and> nowMs - prev < 10000
      \<and> eval_rule snap nowSec mode nowMs rule s = (e, s', out)
      \<longrightarrow> k \<notin> set (map tip_key out) \<and> lastFiredAtMs s' k = Some prev)
   \<and> ((\<forall>m \<in> set (modules (config s)). \<forall>r \<in> set (mod_rules m).
          throttled r nowMs (lastFiredAtMs s k))
      \<and> tick s (Some snap) nowMs = (sT, outT)
      \<longrightarrow> k \<notin> set (map tip_key outT) \<and> lastFiredAtMs sT k = lastFiredAtMs s k)"
    using a b c by metis
  show ?thesis using abc d by blast
qed

theorem throttle_suppression_witness:
  "throttleSec (the (rule_notify dragon_prep_throttled)) = Some 10
   \<and> length (snd (run (new_engine throttled_config) fire_then_regress)) = 1
   \<and> ''dragon_prep_30:dragon:30:300'' \<notin> fired (fst (run (new_engine throttled_config) fire_then_regress))
   \<and> due dragon_prep_throttled (quiet_snapshot (541 / 2)) ''dragon_prep_30:dragon:30:300''
   \<and> throttled dragon_prep_throttled 1700000002000
        (lastFiredAtMs (fst (run (new_engine throttled_config) fire_then_regress))
           ''dragon_prep_30:dragon:30:300'')
   \<and> ''dragon_prep_30:dragon:30:300''
       \<notin> set (map tip_key (snd (tick (fst (run (new_engine throttled_config) fire_then_regress))
                                   (Some (quiet_snapshot (541 / 2))) 1700000002000)))
   \<and> lastFiredAtMs (fst (tick (fst (run (new_engine throttled_config) fire_then_regress))
                            (Some (quiet_snapshot (541 / 2))) 1700000002000))
        ''dragon_prep_30:dragon:30:300'' = Some 1700000000000
   \<and> all_throttled 10000 throttled_config
   \<and> map fst (stamped_run (new_engine throttled_config)
                 (fire_then_regress @ [Tick (Some (quiet_snapshot (541 / 2))) 1700000002000]))
       = [1700000000000]"
proof -
  let ?s = "fst (run (new_engine throttled_config) fire_then_regress)"
  let ?snap = "quiet_snapshot (541 / 2)"
  let ?k = "''dragon_prep_30:dragon:30:300''"
  let ?t = "tick ?s (Some ?snap) 1700000002000"
  have ts: "throttleSec (the (rule_notify dragon_prep_throttled)) = Some 10"
    by (simp add: dragon_prep_throttled_def)
  have one: "length (snd (run (new_engine throttled_config) fire_then_regress)) = 1" by code_simp
  have nf: "?k \<notin> fired ?s" by code_simp
  have du: "due dragon_prep_throttled ?snap ?k" by code_simp
  have th: "throttled dragon_prep_throttled 1700000002000 (lastFiredAtMs ?s ?k)" by code_simp
  have prev: "lastFiredAtMs ?s ?k = Some 1700000000000" by code_simp
  have cfg: "modules (config ?s)
               = [\<lparr>mod_id = ''objectives'', mod_rules = [dragon_prep_throttled], mod_enabled = None\<rparr>]"
    by code_simp
  have all: "\<forall>m \<in> set (modules (config ?s)). \<forall>r \<in> set (mod_rules m).
               throttled r 1700000002000 (lastFiredAtMs ?s ?k)"
    using th cfg by simp
  have t: "?t = (fst ?t, snd ?t)" by simp
  from throttle_suppression[where s = "?s" and k = "?k" and snap = "?snap"
        and nowMs = 1700000002000 and sT = "fst ?t" and outT = "snd ?t"]
  have "?k \<notin> set (map tip_key (snd ?t)) \<and> lastFiredAtMs (fst ?t) ?k = lastFiredAtMs ?s ?k"
    using all t by blast
  moreover have "all_throttled 10000 throttled_config" by code_simp
  moreover have "map fst (stamped_run (new_engine throttled_config)
                 (fire_then_regress @ [Tick (Some (quiet_snapshot (541 / 2))) 1700000002000]))
       = [1700000000000]" by code_simp
  ultimately show ?thesis using ts one nf du th prev by simp
qed

subsection \<open>Partial failure of the equipment endpoint\<close>

text \<open>
  C9. When the four core datasets are fetched and the items endpoint fails for every
  identity candidate, the aggregation succeeds: the snapshot's items list is exactly 7
  absence markers, its error flag is false, and every other field is what it is for any
  other behaviour of the items endpoint.
\<close>

theorem equipment_failure_not_fatal:
  assumes "up_gamestats up = Some gs" and "up_eventdata up = Some events"
      and "up_activeplayername up = Some ap" and "up_playerlist up = Some players"
      and "\<forall>c \<in> set (riotIdCandidates ap (resolve_me ap players)). up_playeritems up c = None"
  shows "\<exists>snap. getAggregatedSnapshot up = Inr snap
           \<and> items snap = [None, None, None, None, None, None, None]
           \<and> \<not> error snap
           \<and> (\<forall>answer. \<exists>other. getAggregatedSnapshot (up\<lparr>up_playeritems := answer\<rparr>) = Inr other
                  \<and> snap = other\<lparr>items := [None, None, None, None, None, None, None]\<rparr>)"
proof -
  have f: "fetch_items (up_playeritems up) (riotIdCandidates ap (resolve_me ap players)) = []"
    using fetch_all_fail[OF assms(5)] by (simp add: fetch_items_def)
  have r: "replicate 7 None = [None, None, None, None, None, None, (None :: string option)]"
    by (simp add: numeral_eq_Suc)
  show ?thesis
    using assms(1-4) f r
    by (simp add: getAggregatedSnapshot_def Let_def items_by_slot_Nil)
qed

theorem equipment_failure_not_fatal_witness:
  "(case getAggregatedSnapshot partial_upstream of
      Inl e \<Rightarrow> False
    | Inr snap \<Rightarrow>
        items snap = [None, None, None, None, None, None, None] \<and> \<not> error snap
        \<and> stats_kills snap = 2 \<and> player_name snap = ''Foo#EUW''
        \<and> d_nextSpawnTime (dragon (objectives snap)) = 650)"
proof -
  let ?ap = "ActiveObject None (Some ''Foo'') (Some ''EUW'')"
  let ?players = "[player (Some ''Foo#EUW'') (Some ''Foo'') (Some ''EUW'') (Some ''Foo'')]"
  have a: "up_gamestats partial_upstream = Some \<lparr>gameMode = ''CLASSIC'', gameTime = 600\<rparr>"
    and b: "up_eventdata partial_upstream = Some [kill_at ''DragonKill'' 350]"
    and c: "up_activeplayername partial_upstream = Some ?ap"
    and d: "up_playerlist partial_upstream = Some ?players"
    by (simp_all add: partial_upstream_def)
  have e: "\<forall>c \<in> set (riotIdCandidates ?ap (resolve_me ?ap ?players)).
             up_playeritems partial_upstream c = None"
    by (simp add: partial_upstream_def)
  from equipment_failure_not_fatal[OF a b c d e]
  obtain snap where s: "getAggregatedSnapshot partial_upstream = Inr snap"
    and i: "items snap = [None, None, None, None, None, None, None]" and ne: "\<not> error snap"
    by blast
  have rest: "(case getAggregatedSnapshot partial_upstream of
      Inl e \<Rightarrow> False
    | Inr snap \<Rightarrow> stats_kills snap = 2 \<and> player_name snap = ''Foo#EUW''
        \<and> d_nextSpawnTime (dragon (objectives snap)) = 650)"
    by code_simp
  show ?thesis using s i ne rest by simp
qed

subsection \<open>Polling interval\<close>


end
